theory Spec2Isabelle
  imports Main "HOL-Library.AList"
begin

section \<open>Python values used by the converter\<close>

text \<open>
  NFA states are Python integers (\<open>int\<close>); DFA states are list lengths and list
  indices (\<open>nat\<close>). A symbol is a Python \<open>str\<close>; the key of an NFA transition
  carries \<open>Optional[str]\<close>, where \<open>None\<close> marks an epsilon transition.

  A Python \<open>set\<close> or \<open>frozenset\<close> of integers is embedded as the list of its
  elements in the order in which they were inserted. Python does not say in which order
  a set is iterated, so the order is a parameter of the embedding: a \<open>layout\<close> turns
  the insertion sequence into the iteration sequence. It can be any function that keeps
  the elements and lists each of them once.
\<close>

typedef layout = "{f :: int list \<Rightarrow> int list. \<forall>h. set (f h) = set h \<and> distinct (f h)}"
  morphisms iter Abs_layout
  by (rule exI [of _ remdups]) simp

setup_lifting type_definition_layout

lemma set_iter [simp]: "set (iter L h) = set h"
  using iter [of L] by simp

lemma distinct_iter [simp]: "distinct (iter L h)"
  using iter [of L] by simp

lift_definition insertion_order :: layout is "\<lambda>h. rev (remdups (rev h))"
  by simp

lift_definition ascending_order :: layout is "\<lambda>h. sort (remdups h)"
  by simp

text \<open>A dictionary is an association list in insertion order; \<open>d.get(k, default)\<close>:\<close>

definition dict_get :: "('k \<times> 'v) list \<Rightarrow> 'k \<Rightarrow> 'v \<Rightarrow> 'v" where
  "dict_get d k dflt = (case map_of d k of None \<Rightarrow> dflt | Some v \<Rightarrow> v)"

record NFA =
  transitions :: "((int \<times> string option) \<times> int list) list"
  start :: int
  accept :: "(int \<times> string) list"

record DFA =
  transitions :: "((nat \<times> string) \<times> nat) list"
  start :: nat
  accept :: "(nat \<times> string) list"

section \<open>epsilon\_closure\<close>

text \<open>
  The body of the inner \<open>for\<close> loop: a target that is not yet in \<open>closure\<close> is added
  to it and pushed on the stack.
\<close>

definition closure_add :: "int list \<times> int list \<Rightarrow> int \<Rightarrow> int list \<times> int list" where
  "closure_add cs next_state =
     (case cs of (closure, stack) \<Rightarrow>
        if next_state \<notin> set closure
        then (closure @ [next_state], stack @ [next_state])
        else (closure, stack))"

lemma closure_add_pair:
  "closure_add (c, s) n = (if n \<notin> set c then (c @ [n], s @ [n]) else (c, s))"
  by (simp add: closure_add_def)

text \<open>Every target state that occurs in the transition table.\<close>

definition targets :: "NFA \<Rightarrow> int set" where
  "targets nfa = (\<Union>kv \<in> set (NFA.transitions nfa). set (snd kv))"

lemma finite_targets: "finite (targets nfa)"
  by (simp add: targets_def)

lemma dict_get_targets: "set (dict_get (NFA.transitions nfa) k []) \<subseteq> targets nfa"
proof (cases "map_of (NFA.transitions nfa) k")
  case None
  then show ?thesis by (simp add: dict_get_def)
next
  case (Some v)
  then have "(k, v) \<in> set (NFA.transitions nfa)" by (rule map_of_SomeD)
  then have "set v \<subseteq> targets nfa" by (force simp: targets_def)
  with Some show ?thesis by (simp add: dict_get_def)
qed

lemma closure_add_measure:
  assumes "finite U" "set ns \<subseteq> U" "foldl closure_add (c, s) ns = (c', s')"
  shows "2 * card (U - set c') + length s' \<le> 2 * card (U - set c) + length s"
  using assms(2,3)
proof (induction ns arbitrary: c s)
  case Nil
  then show ?case by simp
next
  case (Cons n ns)
  show ?case
  proof (cases "n \<in> set c")
    case True
    with Cons show ?thesis by (simp add: closure_add_pair)
  next
    case False
    from Cons.prems False have n: "n \<in> U - set c" by simp
    with assms(1) have pos: "0 < card (U - set c)"
      by (metis card_gt_0_iff empty_iff finite_Diff)
    from n have dec: "card (U - set (c @ [n])) = card (U - set c) - 1"
      by (simp add: card_Diff_insert)
    from Cons.prems False have "foldl closure_add (c @ [n], s @ [n]) ns = (c', s')"
      by (simp add: closure_add_pair)
    with Cons.IH [of "c @ [n]" "s @ [n]"] Cons.prems
    have "2 * card (U - set c') + length s' \<le> 2 * card (U - set (c @ [n])) + length (s @ [n])"
      by simp
    with dec pos show ?thesis by simp
  qed
qed

text \<open>
  The \<open>while stack:\<close> loop. \<open>stack.pop()\<close> takes the last element of the list.
\<close>

function closure_while :: "NFA \<Rightarrow> int list \<Rightarrow> int list \<Rightarrow> int list" where
  "closure_while nfa closure stack =
     (if stack = [] then closure
      else
        let state = last stack;
            next_states = dict_get (NFA.transitions nfa) (state, None) [];
            (closure', stack') = foldl closure_add (closure, butlast stack) next_states
        in closure_while nfa closure' stack')"
  by pat_completeness auto
termination
proof (relation "measure (\<lambda>(nfa, closure, stack). 2 * card (targets nfa - set closure) + length stack)")
  show "wf (measure (\<lambda>(nfa, closure, stack). 2 * card (targets nfa - set closure) + length stack))"
    by simp
next
  fix nfa :: NFA and closure stack :: "int list" and state next_states p closure' stack'
  assume ne: "stack \<noteq> []"
    and ns: "next_states = dict_get (NFA.transitions nfa) (state, None) []"
    and p: "p = foldl closure_add (closure, butlast stack) next_states"
    and cs: "(closure', stack') = p"
  from ns have "set next_states \<subseteq> targets nfa" by (simp add: dict_get_targets)
  with p cs
  have "2 * card (targets nfa - set closure') + length stack'
          \<le> 2 * card (targets nfa - set closure) + length (butlast stack)"
    using closure_add_measure [OF finite_targets, of next_states nfa closure "butlast stack" closure' stack']
    by simp
  with ne show "((nfa, closure', stack'), (nfa, closure, stack))
      \<in> measure (\<lambda>(nfa, closure, stack). 2 * card (targets nfa - set closure) + length stack)"
    by (cases stack rule: rev_cases) simp_all
qed

declare closure_while.simps [simp del]

text \<open>
  \<open>closure = set(states)\<close> inserts the elements of \<open>states\<close> in the order in which
  \<open>states\<close> is iterated; \<open>stack = list(states)\<close> lists them in the same order.
\<close>

definition epsilon_closure :: "layout \<Rightarrow> NFA \<Rightarrow> int list \<Rightarrow> int list" where
  "epsilon_closure L nfa states = closure_while nfa (iter L states) (iter L states)"

section \<open>move\_nfa\<close>

text \<open>\<open>s.add(x)\<close> on a set: a new element is inserted, a known one changes nothing.\<close>

definition set_add :: "int list \<Rightarrow> int \<Rightarrow> int list" where
  "set_add s x = (if x \<in> set s then s else s @ [x])"

definition move_nfa :: "layout \<Rightarrow> NFA \<Rightarrow> int list \<Rightarrow> string \<Rightarrow> int list" where
  "move_nfa L nfa states symbol =
     foldl (\<lambda>result state.
              foldl set_add result (dict_get (NFA.transitions nfa) (state, Some symbol) []))
       [] (iter L states)"

section \<open>What the closure and the move compute\<close>

text \<open>The epsilon edges of the transition table, as a relation on NFA states.\<close>

definition eps_rel :: "NFA \<Rightarrow> (int \<times> int) set" where
  "eps_rel nfa = {(s, t). t \<in> set (dict_get (NFA.transitions nfa) (s, None) [])}"

lemma eps_rel_Image: "eps_rel nfa `` {s} = set (dict_get (NFA.transitions nfa) (s, None) [])"
  by (auto simp: eps_rel_def)

lemma foldl_closure_add_sets:
  "foldl closure_add (c, s) ns = (c', s') \<Longrightarrow>
     set c' = set c \<union> set ns \<and> set s' = set s \<union> (set ns - set c)"
proof (induction ns arbitrary: c s)
  case Nil
  then show ?case by simp
next
  case (Cons n ns)
  show ?case
  proof (cases "n \<in> set c")
    case True
    with Cons.prems have "foldl closure_add (c, s) ns = (c', s')"
      by (simp add: closure_add_pair)
    from Cons.IH [OF this] True show ?thesis by auto
  next
    case False
    with Cons.prems have "foldl closure_add (c @ [n], s @ [n]) ns = (c', s')"
      by (simp add: closure_add_pair)
    from Cons.IH [OF this] False show ?thesis by auto
  qed
qed

lemma closure_while_set:
  assumes "set S \<subseteq> set c" and "set s \<subseteq> set c"
    and "set c \<subseteq> (eps_rel nfa)\<^sup>* `` set S"
    and "\<forall>x \<in> set c - set s. eps_rel nfa `` {x} \<subseteq> set c"
  shows "set (closure_while nfa c s) = (eps_rel nfa)\<^sup>* `` set S"
  using assms
proof (induction nfa c s rule: closure_while.induct)
  case (1 nfa closure stack)
  show ?case
  proof (cases "stack = []")
    case True
    with "1.prems"(4) have "eps_rel nfa `` set closure \<subseteq> set closure" by auto
    then have "(eps_rel nfa)\<^sup>* `` set closure = set closure"
      by (rule Image_closed_trancl)
    moreover from "1.prems"(1) have "(eps_rel nfa)\<^sup>* `` set S \<subseteq> (eps_rel nfa)\<^sup>* `` set closure"
      by (rule Image_mono [OF subset_refl])
    ultimately have "set closure = (eps_rel nfa)\<^sup>* `` set S"
      using "1.prems"(3) by auto
    with True show ?thesis by (simp add: closure_while.simps)
  next
    case False
    define state where "state = last stack"
    define next_states where "next_states = dict_get (NFA.transitions nfa) (state, None) []"
    obtain closure' stack' where
      fold: "foldl closure_add (closure, butlast stack) next_states = (closure', stack')"
      by (cases "foldl closure_add (closure, butlast stack) next_states")
    from foldl_closure_add_sets [OF fold]
    have c': "set closure' = set closure \<union> set next_states"
      and s': "set stack' = set (butlast stack) \<union> (set next_states - set closure)"
      by simp_all
    from False have stack: "set stack = insert state (set (butlast stack))"
      unfolding state_def by (cases stack rule: rev_cases) auto
    with "1.prems"(2) have state_in: "state \<in> set closure" by auto
    have ns: "set next_states = eps_rel nfa `` {state}"
      by (simp add: next_states_def eps_rel_Image)
    have p1: "set S \<subseteq> set closure'" using "1.prems"(1) c' by auto
    have p2: "set stack' \<subseteq> set closure'" using "1.prems"(2) c' s' stack by auto
    have p3: "set closure' \<subseteq> (eps_rel nfa)\<^sup>* `` set S"
    proof
      fix y assume "y \<in> set closure'"
      with c' consider "y \<in> set closure" | "y \<in> set next_states" by auto
      then show "y \<in> (eps_rel nfa)\<^sup>* `` set S"
      proof cases
        case 1
        with "1.prems"(3) show ?thesis by auto
      next
        case 2
        with ns have "(state, y) \<in> eps_rel nfa" by auto
        moreover from state_in "1.prems"(3) obtain x
          where "x \<in> set S" "(x, state) \<in> (eps_rel nfa)\<^sup>*" by auto
        ultimately show ?thesis by (auto intro: rtrancl_into_rtrancl)
      qed
    qed
    have p4: "\<forall>x \<in> set closure' - set stack'. eps_rel nfa `` {x} \<subseteq> set closure'"
    proof
      fix x assume x: "x \<in> set closure' - set stack'"
      show "eps_rel nfa `` {x} \<subseteq> set closure'"
      proof (cases "x = state")
        case True
        with ns c' show ?thesis by auto
      next
        case False
        with x c' s' stack have "x \<in> set closure - set stack" by auto
        with "1.prems"(4) c' show ?thesis by blast
      qed
    qed
    have "set (closure_while nfa closure' stack') = (eps_rel nfa)\<^sup>* `` set S"
      using "1.IH" [OF False state_def next_states_def refl fold [symmetric] p1 p2 p3 p4] .
    moreover have "closure_while nfa closure stack = closure_while nfa closure' stack'"
      using False fold
      by (subst closure_while.simps) (simp add: state_def next_states_def Let_def)
    ultimately show ?thesis by simp
  qed
qed

lemma epsilon_closure_set:
  "set (epsilon_closure L nfa S) = (eps_rel nfa)\<^sup>* `` set S"
proof -
  have "set (closure_while nfa (iter L S) (iter L S)) = (eps_rel nfa)\<^sup>* `` set (iter L S)"
    by (rule closure_while_set) auto
  then show ?thesis by (simp add: epsilon_closure_def)
qed

lemma foldl_set_add: "set (foldl set_add result xs) = set result \<union> set xs"
  by (induction xs arbitrary: result) (auto simp: set_add_def)

lemma foldl_move_set:
  "set (foldl (\<lambda>result state. foldl set_add result (f state)) result xs)
     = set result \<union> (\<Union>s \<in> set xs. set (f s))"
  by (induction xs arbitrary: result) (auto simp: foldl_set_add)

lemma move_nfa_set:
  "set (move_nfa L nfa states symbol)
     = (\<Union>s \<in> set states. set (dict_get (NFA.transitions nfa) (s, Some symbol) []))"
  by (simp add: move_nfa_def foldl_move_set)

lemma move_nfa_targets: "set (move_nfa L nfa states symbol) \<subseteq> targets nfa"
  using dict_get_targets by (fastforce simp: move_nfa_set)

lemma eps_rel_targets: "(s, t) \<in> eps_rel nfa \<Longrightarrow> t \<in> targets nfa"
  using dict_get_targets [of nfa "(s, None)"] by (auto simp: eps_rel_def)

lemma eps_rtrancl_targets:
  "(s, t) \<in> (eps_rel nfa)\<^sup>* \<Longrightarrow> s \<in> A \<Longrightarrow> A \<subseteq> U \<Longrightarrow> targets nfa \<subseteq> U \<Longrightarrow> t \<in> U"
  by (induction rule: rtrancl_induct) (auto dest: eps_rel_targets)

lemma epsilon_closure_subset:
  "set S \<subseteq> U \<Longrightarrow> targets nfa \<subseteq> U \<Longrightarrow> set (epsilon_closure L nfa S) \<subseteq> U"
  by (auto simp: epsilon_closure_set dest: eps_rtrancl_targets)

section \<open>convert\_nfa\_to\_dfa\<close>

text \<open>\<open>sep.join(labels)\<close>\<close>

fun join :: "string \<Rightarrow> string list \<Rightarrow> string" where
  "join sep [] = []"
| "join sep [x] = x"
| "join sep (x # y # ys) = x @ sep @ join sep (y # ys)"

text \<open>
  \<open>[nfa.accept[s] for s in closure if s in nfa.accept]\<close>: the frozen set is iterated
  in its own order, and each member that is a key of \<open>nfa.accept\<close> gives its label.
\<close>

definition accept_labels :: "layout \<Rightarrow> NFA \<Rightarrow> int list \<Rightarrow> string list" where
  "accept_labels L nfa closure = List.map_filter (map_of (NFA.accept nfa)) (iter L closure)"

text \<open>\<open>a & b\<close>, of which the code only tests whether it is empty.\<close>

definition set_inter :: "int list \<Rightarrow> int list \<Rightarrow> int list" where
  "set_inter a b = filter (\<lambda>x. x \<in> set b) a"

text \<open>
  The two places that record an accept label (for the start state and for a newly
  discovered state) run the same two statements:
  \<^verbatim>\<open>if closure & nfa_accept_set: dfa_accept[index] = ", ".join(labels)\<close>
\<close>

definition record_accept ::
  "layout \<Rightarrow> NFA \<Rightarrow> int list \<Rightarrow> nat \<Rightarrow> int list \<Rightarrow> (nat \<times> string) list \<Rightarrow> (nat \<times> string) list" where
  "record_accept L nfa nfa_accept_set index closure dfa_accept =
     (if set_inter closure nfa_accept_set \<noteq> []
      then AList.update index (join '', '' (accept_labels L nfa closure)) dfa_accept
      else dfa_accept)"

text \<open>The local variables of \<open>convert_nfa_to_dfa\<close> that the loop changes.\<close>

record construction =
  dfa_transitions :: "((nat \<times> string) \<times> nat) list"
  dfa_accept :: "(nat \<times> string) list"
  state_mapping :: "(int list \<times> nat) list"
  dfa_states :: "int list list"
  queue :: "nat list"

text \<open>
  \<open>state_mapping\<close> is keyed by frozen sets: two keys are the same key when they have
  the same elements, whatever their order.
\<close>

definition mapping_get :: "(int list \<times> nat) list \<Rightarrow> int list \<Rightarrow> nat option" where
  "mapping_get m k = map_option snd (find (\<lambda>kv. set (fst kv) = set k) m)"

text \<open>The body of \<open>for symbol in alphabet\<close>.\<close>

definition symbol_step ::
  "layout \<Rightarrow> NFA \<Rightarrow> int list \<Rightarrow> nat \<Rightarrow> int list \<Rightarrow> construction \<Rightarrow> string \<Rightarrow> construction" where
  "symbol_step L nfa nfa_accept_set current_index current_state_set st symbol =
     (let move_set = move_nfa L nfa (iter L current_state_set) symbol in
      if move_set = [] then st
      else
        let next_closure = iter L (epsilon_closure L nfa move_set) in
        case mapping_get (state_mapping st) next_closure of
          Some next_index \<Rightarrow>
            st\<lparr>dfa_transitions :=
                 AList.update (current_index, symbol) next_index (dfa_transitions st)\<rparr>
        | None \<Rightarrow>
            let next_index = length (dfa_states st) in
            st\<lparr>state_mapping := state_mapping st @ [(next_closure, next_index)],
               dfa_states := dfa_states st @ [next_closure],
               queue := queue st @ [next_index],
               dfa_accept :=
                 record_accept L nfa nfa_accept_set next_index next_closure (dfa_accept st),
               dfa_transitions :=
                 AList.update (current_index, symbol) next_index (dfa_transitions st)\<rparr>)"

text \<open>
  The sets of NFA states that have no DFA state yet. Every set the loop can reach
  consists of target states of the transition table, so there are finitely many.
\<close>

definition known :: "construction \<Rightarrow> int set set" where
  "known st = (\<lambda>kv. set (fst kv)) ` set (state_mapping st)"

definition undiscovered :: "NFA \<Rightarrow> construction \<Rightarrow> int set set" where
  "undiscovered nfa st = Pow (targets nfa) - known st"

definition work_left :: "NFA \<Rightarrow> construction \<Rightarrow> nat" where
  "work_left nfa st = 2 * card (undiscovered nfa st) + length (queue st)"

lemma finite_undiscovered: "finite (undiscovered nfa st)"
  by (simp add: undiscovered_def finite_targets)

lemma mapping_get_None: "mapping_get m k = None \<longleftrightarrow> set k \<notin> (\<lambda>kv. set (fst kv)) ` set m"
  by (force simp: mapping_get_def find_None_iff)

lemma symbol_step_work_left:
  "work_left nfa (symbol_step L nfa acc i css st symbol) \<le> work_left nfa st"
proof (cases "move_nfa L nfa (iter L css) symbol = []")
  case True
  then show ?thesis by (simp add: symbol_step_def)
next
  case False
  define next_closure where
    "next_closure = iter L (epsilon_closure L nfa (move_nfa L nfa (iter L css) symbol))"
  show ?thesis
  proof (cases "mapping_get (state_mapping st) next_closure")
    case (Some j)
    with False show ?thesis
      by (simp add: symbol_step_def Let_def next_closure_def [symmetric]
          work_left_def undiscovered_def known_def)
  next
    case None
    have "set next_closure \<subseteq> targets nfa"
      unfolding next_closure_def
      by (simp add: epsilon_closure_subset [OF move_nfa_targets subset_refl])
    moreover from None have "set next_closure \<notin> known st"
      by (simp add: mapping_get_None known_def)
    ultimately have new: "set next_closure \<in> undiscovered nfa st"
      by (simp add: undiscovered_def)
    then have pos: "0 < card (undiscovered nfa st)"
      using finite_undiscovered [of nfa st] by (auto simp: card_gt_0_iff)
    define st' where "st' = symbol_step L nfa acc i css st symbol"
    from False None have st': "state_mapping st' = state_mapping st @ [(next_closure, length (dfa_states st))]"
      "queue st' = queue st @ [length (dfa_states st)]"
      by (simp_all add: st'_def symbol_step_def Let_def next_closure_def [symmetric])
    then have "undiscovered nfa st' = undiscovered nfa st - {set next_closure}"
      by (auto simp: undiscovered_def known_def)
    with new have "card (undiscovered nfa st') = card (undiscovered nfa st) - 1"
      by (simp add: finite_undiscovered)
    with pos st'(2) show ?thesis
      by (simp add: work_left_def st'_def [symmetric])
  qed
qed

lemma foldl_symbol_step_work_left:
  "work_left nfa (foldl (symbol_step L nfa acc i css) st alphabet) \<le> work_left nfa st"
proof (induction alphabet arbitrary: st)
  case Nil
  show ?case by simp
next
  case (Cons a alphabet)
  have "work_left nfa (foldl (symbol_step L nfa acc i css) (symbol_step L nfa acc i css st a) alphabet)
          \<le> work_left nfa (symbol_step L nfa acc i css st a)"
    by (rule Cons.IH)
  also have "\<dots> \<le> work_left nfa st" by (rule symbol_step_work_left)
  finally show ?case by simp
qed

datatype error = IndexError

text \<open>
  The \<open>while queue:\<close> loop. \<open>queue.popleft()\<close> takes the first element;
  \<open>dfa_states[current_index]\<close> raises \<open>IndexError\<close> outside the list.
\<close>

function convert_while ::
  "layout \<Rightarrow> NFA \<Rightarrow> string list \<Rightarrow> int list \<Rightarrow> construction \<Rightarrow> error + construction" where
  "convert_while L nfa alphabet nfa_accept_set st =
     (case queue st of
        [] \<Rightarrow> Inr st
      | current_index # rest \<Rightarrow>
          if current_index < length (dfa_states st)
          then
            let current_state_set = dfa_states st ! current_index
            in convert_while L nfa alphabet nfa_accept_set
                 (foldl (symbol_step L nfa nfa_accept_set current_index current_state_set)
                    (st\<lparr>queue := rest\<rparr>) alphabet)
          else Inl IndexError)"
  by pat_completeness auto
termination
proof (relation "measure (\<lambda>(L, nfa, alphabet, nfa_accept_set, st). work_left nfa st)")
  show "wf (measure (\<lambda>(L, nfa, alphabet, nfa_accept_set, st). work_left nfa st))"
    by simp
next
  fix L nfa alphabet nfa_accept_set and st :: construction
    and current_index rest current_state_set
  assume q: "queue st = current_index # rest"
  have "work_left nfa
          (foldl (symbol_step L nfa nfa_accept_set current_index current_state_set)
             (st\<lparr>queue := rest\<rparr>) alphabet)
        \<le> work_left nfa (st\<lparr>queue := rest\<rparr>)"
    by (rule foldl_symbol_step_work_left)
  also from q have "\<dots> < work_left nfa st"
    by (simp add: work_left_def undiscovered_def known_def)
  finally show "((L, nfa, alphabet, nfa_accept_set,
        foldl (symbol_step L nfa nfa_accept_set current_index current_state_set)
          (st\<lparr>queue := rest\<rparr>) alphabet),
       (L, nfa, alphabet, nfa_accept_set, st))
      \<in> measure (\<lambda>(L, nfa, alphabet, nfa_accept_set, st). work_left nfa st)"
    by simp
qed

declare convert_while.simps [simp del]

text \<open>
  The statements before the loop: the start state is the closure of \<open>{nfa.start}\<close>,
  it is DFA state 0, and \<open>nfa_accept_set = set(nfa.accept.keys())\<close>.
\<close>

definition nfa_accept_set :: "NFA \<Rightarrow> int list" where
  "nfa_accept_set nfa = map fst (NFA.accept nfa)"

definition convert_start :: "layout \<Rightarrow> NFA \<Rightarrow> construction" where
  "convert_start L nfa =
     (let start_set = [NFA.start nfa];
          start_closure = iter L (epsilon_closure L nfa start_set)
      in \<lparr>dfa_transitions = [],
          dfa_accept = record_accept L nfa (nfa_accept_set nfa) 0 start_closure [],
          state_mapping = [(start_closure, 0)],
          dfa_states = [start_closure],
          queue = [0]\<rparr>)"

text \<open>The local variables when the loop has ended.\<close>

definition construct :: "layout \<Rightarrow> NFA \<Rightarrow> string list \<Rightarrow> error + construction" where
  "construct L nfa alphabet =
     convert_while L nfa alphabet (nfa_accept_set nfa) (convert_start L nfa)"

definition convert_nfa_to_dfa :: "layout \<Rightarrow> NFA \<Rightarrow> string list \<Rightarrow> error + DFA" where
  "convert_nfa_to_dfa L nfa alphabet =
     (case construct L nfa alphabet of
        Inl e \<Rightarrow> Inl e
      | Inr st \<Rightarrow>
          Inr \<lparr>DFA.transitions = dfa_transitions st, DFA.start = 0, DFA.accept = dfa_accept st\<rparr>)"

section \<open>read\_nfa\_transitions\_csv\<close>

text \<open>
  A Python \<open>str\<close> is embedded as the list of its code points, for code points below
  256. \<open>str.strip()\<close> removes the characters for which \<open>str.isspace()\<close> holds from
  both ends; below 256 these are the code points listed here.
\<close>

definition is_space :: "char \<Rightarrow> bool" where
  "is_space c \<longleftrightarrow> (of_char c :: nat) \<in> {9, 10, 11, 12, 13, 28, 29, 30, 31, 32, 133, 160}"

definition strip :: "string \<Rightarrow> string" where
  "strip s = rev (dropWhile is_space (rev (dropWhile is_space s)))"

text \<open>\<open>s.startswith(prefix)\<close>\<close>

definition startswith :: "string \<Rightarrow> string \<Rightarrow> bool" where
  "startswith s prefix \<longleftrightarrow> take (length prefix) s = prefix"

text \<open>
  \<open>int(s)\<close> for a string, base 10. The interpreter drops white space at both ends
  (its own, narrower list of characters), reads an optional sign, and then wants decimal
  digits, where one underscore may stand between two digits. Anything else raises
  \<open>ValueError\<close>, here \<open>None\<close>. So does a literal with more than \<open>max_str_digits\<close>
  digits when that limit of the interpreter is not 0 (it is 4300 unless changed).
\<close>

definition is_int_space :: "char \<Rightarrow> bool" where
  "is_int_space c \<longleftrightarrow> (of_char c :: nat) \<in> {9, 10, 11, 12, 13, 32, 133, 160}"

definition is_digit :: "char \<Rightarrow> bool" where
  "is_digit c \<longleftrightarrow> 48 \<le> (of_char c :: nat) \<and> (of_char c :: nat) \<le> 57"

definition digit_value :: "char \<Rightarrow> nat" where
  "digit_value c = of_char c - 48"

fun body_digits :: "string \<Rightarrow> nat list option" where
  "body_digits [] = None"
| "body_digits [c] = (if is_digit c then Some [digit_value c] else None)"
| "body_digits (c # d # cs) =
     (if is_digit c
      then if d = CHR ''_''
           then map_option (Cons (digit_value c)) (body_digits cs)
           else map_option (Cons (digit_value c)) (body_digits (d # cs))
      else None)"

definition py_int :: "nat \<Rightarrow> string \<Rightarrow> int option" where
  "py_int max_str_digits s =
     (let t = rev (dropWhile is_int_space (rev (dropWhile is_int_space s)));
          (sign, body) =
            (case t of
               [] \<Rightarrow> (1, [])
             | c # cs \<Rightarrow>
                 if c = CHR ''-'' then (- 1, cs)
                 else if c = CHR ''+'' then (1, cs)
                 else (1, t))
      in case body_digits body of
           None \<Rightarrow> None
         | Some ds \<Rightarrow>
             if 0 < max_str_digits \<and> max_str_digits < length ds then None
             else Some (sign * int (foldl (\<lambda>n d. 10 * n + d) 0 ds)))"

text \<open>
  \<open>transitions.setdefault(key, []).append(to)\<close>: a known key gets \<open>to\<close> at the end
  of its list, a new key is added at the end of the dictionary with the list \<open>[to]\<close>.
\<close>

definition setdefault_append :: "('k \<times> 'v list) list \<Rightarrow> 'k \<Rightarrow> 'v \<Rightarrow> ('k \<times> 'v list) list" where
  "setdefault_append d k v =
     (case map_of d k of
        None \<Rightarrow> d @ [(k, [v])]
      | Some vs \<Rightarrow> AList.update k (vs @ [v]) d)"

text \<open>
  \<open>input_str = row[1].strip()\<close> and \<open>symbol = input_str[0] if input_str else None\<close>.
\<close>

definition input_symbol :: "string \<Rightarrow> string option" where
  "input_symbol field =
     (let input_str = strip field
      in if input_str \<noteq> [] then Some [hd input_str] else None)"

text \<open>
  The body of \<open>for row in reader\<close>. A row is the list of fields that \<open>csv.reader\<close>
  hands over. The two \<open>continue\<close> statements and the \<open>except ValueError: continue\<close>
  leave the dictionary \<open>transitions\<close>, here \<open>table\<close>, as it is.
\<close>

definition read_row ::
  "nat \<Rightarrow> ((int \<times> string option) \<times> int list) list \<Rightarrow> string list
     \<Rightarrow> ((int \<times> string option) \<times> int list) list" where
  "read_row max_str_digits table row =
     (if row = [] \<or> startswith (strip (row ! 0)) ''//'' then table
      else if length row \<noteq> 3 then table
      else
        case py_int max_str_digits (strip (row ! 0)) of
          None \<Rightarrow> table
        | Some frm \<Rightarrow>
            let symbol = input_symbol (row ! 1) in
            case py_int max_str_digits (strip (row ! 2)) of
              None \<Rightarrow> table
            | Some to \<Rightarrow> setdefault_append table (frm, symbol) to)"

definition read_nfa_transitions_csv ::
  "nat \<Rightarrow> string list list \<Rightarrow> ((int \<times> string option) \<times> int list) list" where
  "read_nfa_transitions_csv max_str_digits rows = foldl (read_row max_str_digits) [] rows"

section \<open>Example inputs\<close>

text \<open>
  The automaton with transitions \<open>{(0, None): [1], (1, 'a'): [2], (2, None): [3],
  (3, 'b'): [4]}\<close>, start state 0 and accept states \<open>{4: "accept"}\<close>.
\<close>

definition scenario_nfa :: NFA where
  "scenario_nfa =
     \<lparr>NFA.transitions =
        [((0, None), [1]), ((1, Some ''a''), [2]), ((2, None), [3]), ((3, Some ''b''), [4])],
      NFA.start = 0,
      NFA.accept = [(4, ''accept'')]\<rparr>"

text \<open>
  Start state 8 with one epsilon transition to state 1; both states accept. The closure
  of \<open>{8}\<close> is built by inserting 8 and then 1.
\<close>

definition unordered_nfa :: NFA where
  "unordered_nfa =
     \<lparr>NFA.transitions = [((8, None), [1])],
      NFA.start = 8,
      NFA.accept = [(1, ''one''), (8, ''eight'')]\<rparr>"

text \<open>
  \<open>{(0, 'a'): [1], (1, 'a'): [1]}\<close> with start state 0: reading \<open>a\<close> in \<open>{1}\<close>
  leads to \<open>{1}\<close> again.
\<close>

definition loop_nfa :: NFA where
  "loop_nfa =
     \<lparr>NFA.transitions = [((0, Some ''a''), [1]), ((1, Some ''a''), [1])],
      NFA.start = 0,
      NFA.accept = []\<rparr>"

text \<open>
  Start state 1 with one epsilon transition to state 0; both states accept. The closure
  of \<open>{1}\<close> is built by inserting 1 and then 0.
\<close>

definition backward_nfa :: NFA where
  "backward_nfa =
     \<lparr>NFA.transitions = [((1, None), [0])],
      NFA.start = 1,
      NFA.accept = [(0, ''zero''), (1, ''one'')]\<rparr>"

text \<open>A table as a hand-edited file may hold it.\<close>

definition sample_rows :: "string list list" where
  "sample_rows =
     [[''From'', ''Input'', ''To''],
      [''// the start state''],
      [''0'', ''a'', ''1''],
      [],
      [''0'', '''', ''2'', ''extra''],
      [''x'', ''a'', ''1''],
      [''1'', ''b'', ''one''],
      ['' 0'', ''a '', ''2 ''],
      [''1'', '''', ''+3'']]"

section \<open>Invariants of the construction loop\<close>

text \<open>The closure that \<open>symbol_step\<close> computes for a state set and a symbol.\<close>

definition next_closure_of :: "layout \<Rightarrow> NFA \<Rightarrow> int list \<Rightarrow> string \<Rightarrow> int list" where
  "next_closure_of L nfa css symbol =
     iter L (epsilon_closure L nfa (move_nfa L nfa (iter L css) symbol))"

lemma symbol_step_cases [case_names skip known new]:
  assumes "move_nfa L nfa (iter L css) symbol = [] \<Longrightarrow>
      symbol_step L nfa acc i css st symbol = st \<Longrightarrow> P"
    and "\<And>j. move_nfa L nfa (iter L css) symbol \<noteq> [] \<Longrightarrow>
      mapping_get (state_mapping st) (next_closure_of L nfa css symbol) = Some j \<Longrightarrow>
      symbol_step L nfa acc i css st symbol
        = st\<lparr>dfa_transitions := AList.update (i, symbol) j (dfa_transitions st)\<rparr> \<Longrightarrow> P"
    and "move_nfa L nfa (iter L css) symbol \<noteq> [] \<Longrightarrow>
      mapping_get (state_mapping st) (next_closure_of L nfa css symbol) = None \<Longrightarrow>
      symbol_step L nfa acc i css st symbol
        = st\<lparr>state_mapping := state_mapping st
                 @ [(next_closure_of L nfa css symbol, length (dfa_states st))],
               dfa_states := dfa_states st @ [next_closure_of L nfa css symbol],
               queue := queue st @ [length (dfa_states st)],
               dfa_accept := record_accept L nfa acc (length (dfa_states st))
                 (next_closure_of L nfa css symbol) (dfa_accept st),
               dfa_transitions :=
                 AList.update (i, symbol) (length (dfa_states st)) (dfa_transitions st)\<rparr> \<Longrightarrow> P"
  shows P
proof (cases "move_nfa L nfa (iter L css) symbol = []")
  case True
  then show ?thesis by (intro assms(1)) (simp_all add: symbol_step_def)
next
  case False
  show ?thesis
  proof (cases "mapping_get (state_mapping st) (next_closure_of L nfa css symbol)")
    case None
    with False show ?thesis
      by (intro assms(3)) (simp_all add: symbol_step_def Let_def next_closure_of_def)
  next
    case (Some j)
    with False show ?thesis
      by (intro assms(2) [of j]) (simp_all add: symbol_step_def Let_def next_closure_of_def)
  qed
qed

lemma set_inter_empty: "set_inter a b \<noteq> [] \<longleftrightarrow> set a \<inter> set b \<noteq> {}"
  by (auto simp: set_inter_def filter_empty_conv)

lemma set_nfa_accept_set: "set (nfa_accept_set nfa) = fst ` set (NFA.accept nfa)"
  by (simp add: nfa_accept_set_def)

lemma record_accept_map_of:
  "map_of (record_accept L nfa (nfa_accept_set nfa) k c al)
     = (if set c \<inter> fst ` set (NFA.accept nfa) \<noteq> {}
        then (map_of al)(k \<mapsto> join '', '' (accept_labels L nfa c))
        else map_of al)"
  by (simp add: record_accept_def set_inter_empty set_nfa_accept_set update_conv')

lemma record_accept_keys:
  "fst ` set (record_accept L nfa acc k c al) \<subseteq> insert k (fst ` set al)"
  by (auto simp: record_accept_def dom_update)

lemma record_accept_distinct:
  "distinct (map fst al) \<Longrightarrow> distinct (map fst (record_accept L nfa acc k c al))"
  by (simp add: record_accept_def distinct_update)

lemma mapping_get_Some:
  "mapping_get m k = Some j \<Longrightarrow> \<exists>k'. (k', j) \<in> set m \<and> set k' = set k"
proof -
  assume "mapping_get m k = Some j"
  then obtain kv where f: "find (\<lambda>kv. set (fst kv) = set k) m = Some kv" and j: "snd kv = j"
    by (auto simp: mapping_get_def)
  from f have "kv \<in> set m" and "set (fst kv) = set k"
    by (auto simp: find_Some_iff)
  with j show ?thesis by (intro exI [of _ "fst kv"]) auto
qed

text \<open>
  What holds of the local variables whenever the loop body has run for a symbol:
  \<open>state_mapping\<close> lists the discovered state sets with their positions in
  \<open>dfa_states\<close>, no two of them have the same elements, the queue holds positions of
  \<open>dfa_states\<close>, and \<open>dfa_accept\<close> has an entry exactly for the state sets that meet
  the accept states, with the joined labels.
\<close>

definition construction_inv :: "layout \<Rightarrow> NFA \<Rightarrow> construction \<Rightarrow> bool" where
  "construction_inv L nfa st \<longleftrightarrow>
     map fst (state_mapping st) = dfa_states st \<and>
     map snd (state_mapping st) = [0..<length (dfa_states st)] \<and>
     distinct (map set (dfa_states st)) \<and>
     (\<forall>q \<in> set (queue st). q < length (dfa_states st)) \<and>
     fst ` set (dfa_accept st) \<subseteq> {..<length (dfa_states st)} \<and>
     distinct (map fst (dfa_accept st)) \<and>
     (\<forall>i < length (dfa_states st).
        map_of (dfa_accept st) i
          = (if set (dfa_states st ! i) \<inter> fst ` set (NFA.accept nfa) \<noteq> {}
             then Some (join '', '' (accept_labels L nfa (dfa_states st ! i)))
             else None))"

lemma construction_inv_symbol_step:
  assumes "construction_inv L nfa st"
  shows "construction_inv L nfa (symbol_step L nfa (nfa_accept_set nfa) i css st symbol)"
proof (cases rule: symbol_step_cases [of L nfa css symbol "nfa_accept_set nfa" i st])
  case skip
  with assms show ?thesis by simp
next
  case (known j)
  with assms show ?thesis by (simp add: construction_inv_def)
next
  case new
  define nc where "nc = next_closure_of L nfa css symbol"
  define n where "n = length (dfa_states st)"
  from assms have i1: "map fst (state_mapping st) = dfa_states st"
    and i2: "map snd (state_mapping st) = [0..<n]"
    and i3: "distinct (map set (dfa_states st))"
    and i4: "\<forall>q \<in> set (queue st). q < n"
    and i5: "fst ` set (dfa_accept st) \<subseteq> {..<n}"
    and i7: "distinct (map fst (dfa_accept st))"
    and i6: "\<forall>i < n. map_of (dfa_accept st) i
          = (if set (dfa_states st ! i) \<inter> fst ` set (NFA.accept nfa) \<noteq> {}
             then Some (join '', '' (accept_labels L nfa (dfa_states st ! i)))
             else None)"
    by (simp_all add: construction_inv_def n_def)
  from new(2) have "set nc \<notin> (\<lambda>kv. set (fst kv)) ` set (state_mapping st)"
    by (simp add: mapping_get_None nc_def)
  moreover have "(\<lambda>kv. set (fst kv)) ` set (state_mapping st) = set (map set (dfa_states st))"
    by (simp add: i1 [symmetric] image_image)
  ultimately have fresh: "set nc \<notin> set (map set (dfa_states st))" by simp
  have n_key: "map_of (dfa_accept st) n = None"
    using i5 by (auto simp: map_of_eq_None_iff)
  have acc: "\<forall>i < Suc n.
        map_of (record_accept L nfa (nfa_accept_set nfa) n nc (dfa_accept st)) i
          = (if set ((dfa_states st @ [nc]) ! i) \<inter> fst ` set (NFA.accept nfa) \<noteq> {}
             then Some (join '', '' (accept_labels L nfa ((dfa_states st @ [nc]) ! i)))
             else None)"
  proof (intro allI impI)
    fix i assume "i < Suc n"
    then consider "i < n" | "i = n" by linarith
    then show "map_of (record_accept L nfa (nfa_accept_set nfa) n nc (dfa_accept st)) i
          = (if set ((dfa_states st @ [nc]) ! i) \<inter> fst ` set (NFA.accept nfa) \<noteq> {}
             then Some (join '', '' (accept_labels L nfa ((dfa_states st @ [nc]) ! i)))
             else None)"
    proof cases
      case 1
      with i6 show ?thesis
        by (simp add: record_accept_map_of nth_append n_def)
    next
      case 2
      with n_key show ?thesis
        by (simp add: record_accept_map_of nth_append n_def)
    qed
  qed
  have keys: "fst ` set (record_accept L nfa (nfa_accept_set nfa) n nc (dfa_accept st))
      \<subseteq> {..<Suc n}"
  proof -
    have "insert n (fst ` set (dfa_accept st)) \<subseteq> {..<Suc n}"
      using i5 by auto
    with record_accept_keys [of L nfa "nfa_accept_set nfa" n nc "dfa_accept st"]
    show ?thesis by (rule subset_trans)
  qed
  define st' where "st' = symbol_step L nfa (nfa_accept_set nfa) i css st symbol"
  have sm: "state_mapping st' = state_mapping st @ [(nc, n)]"
    and ds: "dfa_states st' = dfa_states st @ [nc]"
    and qu: "queue st' = queue st @ [n]"
    and da: "dfa_accept st' = record_accept L nfa (nfa_accept_set nfa) n nc (dfa_accept st)"
    unfolding st'_def new(3) nc_def n_def by simp_all
  have c1: "map fst (state_mapping st') = dfa_states st'"
    using i1 by (simp add: sm ds)
  have c2: "map snd (state_mapping st') = [0..<length (dfa_states st')]"
    using i2 by (simp add: sm ds n_def)
  have c3: "distinct (map set (dfa_states st'))"
    using i3 fresh by (simp add: ds)
  have c4: "\<forall>q \<in> set (queue st'). q < length (dfa_states st')"
    using i4 by (auto simp: qu ds n_def)
  have c5: "fst ` set (dfa_accept st') \<subseteq> {..<length (dfa_states st')}"
    using keys by (simp add: da ds n_def)
  have c6: "\<forall>i < length (dfa_states st').
        map_of (dfa_accept st') i
          = (if set (dfa_states st' ! i) \<inter> fst ` set (NFA.accept nfa) \<noteq> {}
             then Some (join '', '' (accept_labels L nfa (dfa_states st' ! i)))
             else None)"
    using acc by (simp add: da ds n_def)
  have c7: "distinct (map fst (dfa_accept st'))"
    using i7 by (simp add: da record_accept_distinct)
  from c1 c2 c3 c4 c5 c6 c7 have "construction_inv L nfa st'"
    unfolding construction_inv_def by blast
  then show ?thesis by (simp add: st'_def)
qed

lemma construction_inv_foldl:
  "construction_inv L nfa st \<Longrightarrow>
     construction_inv L nfa (foldl (symbol_step L nfa (nfa_accept_set nfa) i css) st alphabet)"
  by (induction alphabet arbitrary: st) (simp_all add: construction_inv_symbol_step)

lemma construction_inv_pop:
  "construction_inv L nfa st \<Longrightarrow> queue st = i # rest \<Longrightarrow>
     construction_inv L nfa (st\<lparr>queue := rest\<rparr>) \<and> i < length (dfa_states st)"
  by (simp add: construction_inv_def)

lemma construction_inv_start: "construction_inv L nfa (convert_start L nfa)"
  by (simp add: construction_inv_def convert_start_def Let_def record_accept_map_of
      record_accept_distinct)
    (auto simp: record_accept_def dom_update)

lemma convert_while_inv:
  "construction_inv L nfa st \<Longrightarrow>
     \<exists>st'. convert_while L nfa alphabet (nfa_accept_set nfa) st = Inr st'
       \<and> construction_inv L nfa st' \<and> queue st' = []"
proof (induction L nfa alphabet "nfa_accept_set nfa" st rule: convert_while.induct)
  case (1 L nfa alphabet st)
  show ?case
  proof (cases "queue st")
    case Nil
    with "1.prems" show ?thesis by (simp add: convert_while.simps)
  next
    case (Cons i rest)
    from construction_inv_pop [OF "1.prems" Cons]
    have inv: "construction_inv L nfa (st\<lparr>queue := rest\<rparr>)" and i: "i < length (dfa_states st)"
      by simp_all
    from inv have "construction_inv L nfa
        (foldl (symbol_step L nfa (nfa_accept_set nfa) i (dfa_states st ! i))
           (st\<lparr>queue := rest\<rparr>) alphabet)"
      by (rule construction_inv_foldl)
    from "1.hyps" [OF Cons i refl this] Cons i show ?thesis
      by (subst convert_while.simps) simp
  qed
qed

lemma construct_total:
  "\<exists>st. construct L nfa alphabet = Inr st \<and> construction_inv L nfa st \<and> queue st = []"
  unfolding construct_def by (rule convert_while_inv [OF construction_inv_start])

section \<open>The states a run goes through\<close>

text \<open>
  \<open>loop_head\<close> holds of the local variables each time the test of \<open>while queue:\<close>
  is reached: before the first iteration, and after every full pass of the \<open>for\<close>
  loop. \<open>during\<close> holds of them after any number of symbols of the current pass as
  well.
\<close>

inductive loop_head :: "layout \<Rightarrow> NFA \<Rightarrow> string list \<Rightarrow> construction \<Rightarrow> bool"
  for L :: layout and nfa :: NFA and alphabet :: "string list" where
  start: "loop_head L nfa alphabet (convert_start L nfa)"
| iteration:
    "loop_head L nfa alphabet st \<Longrightarrow> queue st = current_index # rest \<Longrightarrow>
     current_index < length (dfa_states st) \<Longrightarrow>
     loop_head L nfa alphabet
       (foldl (symbol_step L nfa (nfa_accept_set nfa) current_index
                 (dfa_states st ! current_index))
          (st\<lparr>queue := rest\<rparr>) alphabet)"

inductive during :: "layout \<Rightarrow> NFA \<Rightarrow> string list \<Rightarrow> construction \<Rightarrow> bool"
  for L :: layout and nfa :: NFA and alphabet :: "string list" where
  head: "loop_head L nfa alphabet st \<Longrightarrow> during L nfa alphabet st"
| body:
    "loop_head L nfa alphabet st \<Longrightarrow> queue st = current_index # rest \<Longrightarrow>
     current_index < length (dfa_states st) \<Longrightarrow> n \<le> length alphabet \<Longrightarrow>
     during L nfa alphabet
       (foldl (symbol_step L nfa (nfa_accept_set nfa) current_index
                 (dfa_states st ! current_index))
          (st\<lparr>queue := rest\<rparr>) (take n alphabet))"

lemma loop_head_inv: "loop_head L nfa alphabet st \<Longrightarrow> construction_inv L nfa st"
proof (induction rule: loop_head.induct)
  case start
  show ?case by (rule construction_inv_start)
next
  case (iteration st current_index rest)
  from construction_inv_pop [OF iteration.IH iteration.hyps(2)]
  have "construction_inv L nfa (st\<lparr>queue := rest\<rparr>)" by simp
  then show ?case by (rule construction_inv_foldl)
qed

lemma during_inv: "during L nfa alphabet st \<Longrightarrow> construction_inv L nfa st"
proof (induction rule: during.induct)
  case (head st)
  then show ?case by (rule loop_head_inv)
next
  case (body st current_index rest n)
  from construction_inv_pop [OF loop_head_inv [OF body.hyps(1)] body.hyps(2)]
  have "construction_inv L nfa (st\<lparr>queue := rest\<rparr>)" by simp
  then show ?case by (rule construction_inv_foldl)
qed

lemma convert_while_loop_head:
  "loop_head L nfa alphabet st \<Longrightarrow>
     convert_while L nfa alphabet (nfa_accept_set nfa) st = Inr st' \<Longrightarrow>
     loop_head L nfa alphabet st'"
proof (induction L nfa alphabet "nfa_accept_set nfa" st rule: convert_while.induct)
  case (1 L nfa alphabet st)
  show ?case
  proof (cases "queue st")
    case Nil
    with "1.prems" show ?thesis by (simp add: convert_while.simps)
  next
    case (Cons i rest)
    from construction_inv_pop [OF loop_head_inv [OF "1.prems"(1)] Cons]
    have i: "i < length (dfa_states st)" by simp
    from "1.prems"(1) Cons i
    have "loop_head L nfa alphabet
        (foldl (symbol_step L nfa (nfa_accept_set nfa) i (dfa_states st ! i))
           (st\<lparr>queue := rest\<rparr>) alphabet)"
      by (rule loop_head.iteration)
    moreover from "1.prems"(2) Cons i
    have "convert_while L nfa alphabet (nfa_accept_set nfa)
        (foldl (symbol_step L nfa (nfa_accept_set nfa) i (dfa_states st ! i))
           (st\<lparr>queue := rest\<rparr>) alphabet) = Inr st'"
      by (subst (asm) convert_while.simps) simp
    ultimately show ?thesis
      using "1.hyps" [OF Cons i refl] by simp
  qed
qed

lemma construct_loop_head:
  "construct L nfa alphabet = Inr st \<Longrightarrow> loop_head L nfa alphabet st"
  unfolding construct_def by (rule convert_while_loop_head [OF loop_head.start])

lemma inv_mapping_entry:
  assumes "construction_inv L nfa st" and "(k, i) \<in> set (state_mapping st)"
  shows "i < length (dfa_states st) \<and> dfa_states st ! i = k"
proof -
  from assms(1) have fs: "map fst (state_mapping st) = dfa_states st"
    and sn: "map snd (state_mapping st) = [0..<length (dfa_states st)]"
    by (simp_all add: construction_inv_def)
  from assms(2) obtain p where p: "p < length (state_mapping st)" "state_mapping st ! p = (k, i)"
    by (auto simp: in_set_conv_nth)
  from fs have len: "length (state_mapping st) = length (dfa_states st)"
    by (metis length_map)
  from p have "map fst (state_mapping st) ! p = k" "map snd (state_mapping st) ! p = i"
    by simp_all
  with fs sn p(1) len show ?thesis by simp
qed

lemma inv_mapping_injective:
  assumes "construction_inv L nfa st"
    and "(k1, i1) \<in> set (state_mapping st)" and "(k2, i2) \<in> set (state_mapping st)"
  shows "(set k1 = set k2) = (i1 = i2)"
proof -
  from assms(1) have d: "distinct (map set (dfa_states st))"
    by (simp add: construction_inv_def)
  from inv_mapping_entry [OF assms(1,2)] inv_mapping_entry [OF assms(1,3)]
  have e: "i1 < length (dfa_states st)" "dfa_states st ! i1 = k1"
    "i2 < length (dfa_states st)" "dfa_states st ! i2 = k2"
    by simp_all
  then have "map set (dfa_states st) ! i1 = set k1" "map set (dfa_states st) ! i2 = set k2"
    by simp_all
  with d e(1,3) show ?thesis
    by (metis length_map nth_eq_iff_index_eq)
qed

section \<open>The labels of a state set\<close>

text \<open>
  The accept states of the NFA that a state set contains, in the order in which the
  frozen set is iterated.
\<close>

definition accept_states_in :: "layout \<Rightarrow> NFA \<Rightarrow> int list \<Rightarrow> int list" where
  "accept_states_in L nfa closure =
     filter (\<lambda>s. s \<in> fst ` set (NFA.accept nfa)) (iter L closure)"

lemma map_filter_the:
  "List.map_filter f xs = map (\<lambda>x. the (f x)) (filter (\<lambda>x. f x \<noteq> None) xs)"
  by (induction xs) (auto simp: map_filter_simps split: option.splits)

lemma accept_labels_states:
  "accept_labels L nfa closure
     = map (\<lambda>s. the (map_of (NFA.accept nfa) s)) (accept_states_in L nfa closure)"
  by (simp add: accept_labels_def accept_states_in_def map_filter_the map_of_eq_None_iff)

section \<open>Two runs under different iteration orders\<close>

text \<open>
  Two states of the loop agree up to the order inside the state sets and up to the
  label texts: the same transitions, the same queue, the same keys of \<open>dfa_accept\<close> in
  the same order, and the same state sets at the same positions.
\<close>

definition same_run :: "construction \<Rightarrow> construction \<Rightarrow> bool" where
  "same_run st st' \<longleftrightarrow>
     dfa_transitions st = dfa_transitions st' \<and>
     queue st = queue st' \<and>
     map fst (dfa_accept st) = map fst (dfa_accept st') \<and>
     map set (dfa_states st) = map set (dfa_states st') \<and>
     map (\<lambda>kv. (set (fst kv), snd kv)) (state_mapping st)
       = map (\<lambda>kv. (set (fst kv), snd kv)) (state_mapping st')"

lemma mapping_get_cong:
  "map (\<lambda>kv. (set (fst kv), snd kv)) m = map (\<lambda>kv. (set (fst kv), snd kv)) m' \<Longrightarrow>
     set k = set k' \<Longrightarrow> mapping_get m k = mapping_get m' k'"
proof (induction m arbitrary: m')
  case Nil
  then show ?case by (simp add: mapping_get_def)
next
  case (Cons x m)
  then obtain y ms where m': "m' = y # ms" by (cases m') auto
  with Cons.prems have hd: "set (fst x) = set (fst y)" "snd x = snd y"
    and tl: "map (\<lambda>kv. (set (fst kv), snd kv)) m = map (\<lambda>kv. (set (fst kv), snd kv)) ms"
    by simp_all
  from Cons.IH [OF tl Cons.prems(2)] hd Cons.prems(2) show ?case
    by (simp add: m' mapping_get_def)
qed

lemma update_keys:
  "map fst (AList.update k v al) = (if k \<in> fst ` set al then map fst al else map fst al @ [k])"
  by (induction al) auto

lemma update_keys_cong:
  "map fst al = map fst al' \<Longrightarrow> map fst (AList.update k v al) = map fst (AList.update k v' al')"
proof -
  assume eq: "map fst al = map fst al'"
  then have "fst ` set al = fst ` set al'" by (metis set_map)
  with eq show ?thesis by (simp add: update_keys)
qed

lemma record_accept_keys_cong:
  "set c = set c' \<Longrightarrow> map fst al = map fst al' \<Longrightarrow>
     map fst (record_accept L nfa acc k c al) = map fst (record_accept L' nfa acc k c' al')"
  by (simp add: record_accept_def set_inter_empty update_keys_cong)

lemma move_nfa_empty_cong:
  "set css = set css' \<Longrightarrow>
     (move_nfa L nfa (iter L css) symbol = []) = (move_nfa L' nfa (iter L' css') symbol = [])"
proof -
  assume "set css = set css'"
  then have "set (move_nfa L nfa (iter L css) symbol) = set (move_nfa L' nfa (iter L' css') symbol)"
    by (simp add: move_nfa_set)
  then show ?thesis by (metis set_empty)
qed

lemma next_closure_of_cong:
  "set css = set css' \<Longrightarrow>
     set (next_closure_of L nfa css symbol) = set (next_closure_of L' nfa css' symbol)"
  by (simp add: next_closure_of_def epsilon_closure_set move_nfa_set)

lemma same_run_symbol_step:
  assumes "same_run st st'" and "set css = set css'"
  shows "same_run (symbol_step L nfa acc i css st symbol)
                  (symbol_step L' nfa acc i css' st' symbol)"
proof -
  from assms(1) have tr: "dfa_transitions st = dfa_transitions st'"
    and qu: "queue st = queue st'"
    and ak: "map fst (dfa_accept st) = map fst (dfa_accept st')"
    and ds: "map set (dfa_states st) = map set (dfa_states st')"
    and sm: "map (\<lambda>kv. (set (fst kv), snd kv)) (state_mapping st)
       = map (\<lambda>kv. (set (fst kv), snd kv)) (state_mapping st')"
    by (simp_all add: same_run_def)
  from ds have len: "length (dfa_states st) = length (dfa_states st')"
    by (metis length_map)
  note mv = move_nfa_empty_cong [OF assms(2), of L nfa symbol L']
  note nc = next_closure_of_cong [OF assms(2), of L nfa symbol L']
  note mg = mapping_get_cong [OF sm nc]
  show ?thesis
  proof (cases rule: symbol_step_cases [of L nfa css symbol acc i st])
    case skip
    with mv have "move_nfa L' nfa (iter L' css') symbol = []" by simp
    then have "symbol_step L' nfa acc i css' st' symbol = st'"
      by (simp add: symbol_step_def)
    with skip assms(1) show ?thesis by simp
  next
    case (known j)
    from known(1) mv have m': "move_nfa L' nfa (iter L' css') symbol \<noteq> []" by simp
    from known(2) mg
    have g': "mapping_get (state_mapping st') (next_closure_of L' nfa css' symbol) = Some j"
      by simp
    from m' g' have "symbol_step L' nfa acc i css' st' symbol
        = st'\<lparr>dfa_transitions := AList.update (i, symbol) j (dfa_transitions st')\<rparr>"
      by (cases rule: symbol_step_cases [of L' nfa css' symbol acc i st']) simp_all
    with known(3) tr qu ak ds sm show ?thesis by (simp add: same_run_def)
  next
    case new
    from new(1) mv have m': "move_nfa L' nfa (iter L' css') symbol \<noteq> []" by simp
    from new(2) mg
    have g': "mapping_get (state_mapping st') (next_closure_of L' nfa css' symbol) = None"
      by simp
    from m' g' have step': "symbol_step L' nfa acc i css' st' symbol
        = st'\<lparr>state_mapping := state_mapping st'
                 @ [(next_closure_of L' nfa css' symbol, length (dfa_states st'))],
               dfa_states := dfa_states st' @ [next_closure_of L' nfa css' symbol],
               queue := queue st' @ [length (dfa_states st')],
               dfa_accept := record_accept L' nfa acc (length (dfa_states st'))
                 (next_closure_of L' nfa css' symbol) (dfa_accept st'),
               dfa_transitions :=
                 AList.update (i, symbol) (length (dfa_states st')) (dfa_transitions st')\<rparr>"
      by (cases rule: symbol_step_cases [of L' nfa css' symbol acc i st']) simp_all
    have "map fst (record_accept L nfa acc (length (dfa_states st))
                 (next_closure_of L nfa css symbol) (dfa_accept st))
        = map fst (record_accept L' nfa acc (length (dfa_states st'))
                 (next_closure_of L' nfa css' symbol) (dfa_accept st'))"
      unfolding len by (rule record_accept_keys_cong [OF nc ak])
    with tr qu ds sm nc len show ?thesis
      unfolding new(3) step' by (simp add: same_run_def)
  qed
qed

lemma same_run_foldl:
  "same_run st st' \<Longrightarrow> set css = set css' \<Longrightarrow>
     same_run (foldl (symbol_step L nfa acc i css) st alphabet)
              (foldl (symbol_step L' nfa acc i css') st' alphabet)"
  by (induction alphabet arbitrary: st st') (simp_all add: same_run_symbol_step)

lemma same_run_convert_while:
  "same_run st st' \<Longrightarrow>
     rel_sum (=) same_run (convert_while L nfa alphabet acc st)
                          (convert_while L' nfa alphabet acc st')"
proof (induction L nfa alphabet acc st arbitrary: st' rule: convert_while.induct)
  case (1 L nfa alphabet acc st)
  from "1.prems" have qu: "queue st = queue st'"
    and ds: "map set (dfa_states st) = map set (dfa_states st')"
    by (simp_all add: same_run_def)
  from ds have len: "length (dfa_states st) = length (dfa_states st')"
    by (metis length_map)
  show ?case
  proof (cases "queue st")
    case Nil
    with qu "1.prems" show ?thesis
      by (simp add: convert_while.simps [of L] convert_while.simps [of L'])
  next
    case (Cons i rest)
    show ?thesis
    proof (cases "i < length (dfa_states st)")
      case False
      with Cons qu len show ?thesis
        by (simp add: convert_while.simps [of L] convert_while.simps [of L'])
    next
      case True
      from True ds len have css: "set (dfa_states st ! i) = set (dfa_states st' ! i)"
        by (metis nth_map)
      from "1.prems" have "same_run (st\<lparr>queue := rest\<rparr>) (st'\<lparr>queue := rest\<rparr>)"
        by (simp add: same_run_def)
      then have "same_run
          (foldl (symbol_step L nfa acc i (dfa_states st ! i)) (st\<lparr>queue := rest\<rparr>) alphabet)
          (foldl (symbol_step L' nfa acc i (dfa_states st' ! i)) (st'\<lparr>queue := rest\<rparr>) alphabet)"
        using css by (rule same_run_foldl)
      from "1.IH" [OF Cons True refl this] Cons True qu len show ?thesis
        by (simp add: convert_while.simps [of L _ _ _ st] convert_while.simps [of L' _ _ _ st'])
    qed
  qed
qed

lemma same_run_start: "same_run (convert_start L nfa) (convert_start L' nfa)"
  by (simp add: same_run_def convert_start_def Let_def epsilon_closure_set
      record_accept_keys_cong)

lemma same_run_construct:
  "construct L nfa alphabet = Inr st \<Longrightarrow> construct L' nfa alphabet = Inr st' \<Longrightarrow>
     same_run st st'"
proof -
  assume a: "construct L nfa alphabet = Inr st" and b: "construct L' nfa alphabet = Inr st'"
  have "rel_sum (=) same_run
      (convert_while L nfa alphabet (nfa_accept_set nfa) (convert_start L nfa))
      (convert_while L' nfa alphabet (nfa_accept_set nfa) (convert_start L' nfa))"
    by (rule same_run_convert_while [OF same_run_start])
  with a b show ?thesis by (simp add: construct_def)
qed

lemma singleton_list: "distinct xs \<Longrightarrow> set xs = {a} \<Longrightarrow> xs = [a]"
proof (cases xs)
  case Nil
  assume "set xs = {a}"
  with Nil show ?thesis by simp
next
  case (Cons x ys)
  assume d: "distinct xs" and s: "set xs = {a}"
  from s Cons have x: "x = a" and sub: "set ys \<subseteq> {a}" by auto
  from d Cons x have "a \<notin> set ys" by simp
  with sub have "ys = []" by (cases ys) auto
  with Cons x show ?thesis by simp
qed

lemma scenario_any_layout:
  assumes run: "construct insertion_order scenario_nfa alphabet
      = Inr \<lparr>dfa_transitions = [((0, ''a''), 1), ((1, ''b''), 2)],
             dfa_accept = [(2, ''accept'')],
             state_mapping = [([0, 1], 0), ([2, 3], 1), ([4], 2)],
             dfa_states = [[0, 1], [2, 3], [4]], queue = []\<rparr>"
  shows "\<exists>st. construct L scenario_nfa alphabet = Inr st
     \<and> map set (dfa_states st) = [{0, 1}, {2, 3}, {4}]
     \<and> dfa_transitions st = [((0, ''a''), 1), ((1, ''b''), 2)]
     \<and> dfa_accept st = [(2, ''accept'')]"
proof -
  from construct_total obtain st where st: "construct L scenario_nfa alphabet = Inr st"
    and inv: "construction_inv L scenario_nfa st" by blast
  from same_run_construct [OF st run]
  have tr: "dfa_transitions st = [((0, ''a''), 1), ((1, ''b''), 2)]"
    and ak: "map fst (dfa_accept st) = [2]"
    and ds: "map set (dfa_states st) = [{0, 1}, {2, 3}, {4}]"
    by (simp_all add: same_run_def)
  from ds have len: "length (dfa_states st) = 3" by (metis length_map length_Cons list.size(3) numeral_3_eq_3)
  then have "map set (dfa_states st) ! 2 = set (dfa_states st ! 2)" by simp
  with ds have s2: "set (dfa_states st ! 2) = {4}" by simp
  then have "iter L (dfa_states st ! 2) = [4]"
    by (intro singleton_list) simp_all
  then have "accept_labels L scenario_nfa (dfa_states st ! 2) = [''accept'']"
    by (simp add: accept_labels_def scenario_nfa_def map_filter_simps)
  moreover from inv len
  have "map_of (dfa_accept st) 2
      = (if set (dfa_states st ! 2) \<inter> fst ` set (NFA.accept scenario_nfa) \<noteq> {}
         then Some (join '', '' (accept_labels L scenario_nfa (dfa_states st ! 2)))
         else None)"
    by (simp add: construction_inv_def)
  ultimately have look: "map_of (dfa_accept st) 2 = Some ''accept''"
    using s2 by (simp add: scenario_nfa_def)
  from ak obtain l where "dfa_accept st = [(2, l)]"
    by (cases "dfa_accept st") auto
  with look have "dfa_accept st = [(2, ''accept'')]" by simp
  with st ds tr show ?thesis by (intro exI [of _ st] conjI)
qed

section \<open>Rows that are skipped\<close>

text \<open>
  The rows the specification calls skipped: a comment (the first field starts with
  \<open>//\<close>), a row that does not have three fields, and a row whose From or To field is
  not an integer to \<open>int()\<close>.
\<close>

definition skipped_row :: "nat \<Rightarrow> string list \<Rightarrow> bool" where
  "skipped_row max_str_digits row \<longleftrightarrow>
     (row \<noteq> [] \<and> startswith (row ! 0) ''//'') \<or>
     length row \<noteq> 3 \<or>
     py_int max_str_digits (strip (row ! 0)) = None \<or>
     py_int max_str_digits (strip (row ! 2)) = None"

lemma strip_ends_keep_head:
  assumes "\<not> P c"
  shows "\<exists>zs. rev (dropWhile P (rev (dropWhile P (c # cs)))) = c # zs"
proof -
  from assms have "dropWhile P (rev (c # cs)) = dropWhile P (rev cs) @ [c]
      \<or> dropWhile P (rev (c # cs)) = [c]"
    by (simp add: dropWhile_append)
  then have "\<exists>ys. dropWhile P (rev (c # cs)) = ys @ [c]" by auto
  then obtain ys where "dropWhile P (rev (c # cs)) = ys @ [c]" ..
  with assms show ?thesis by simp
qed

lemma slash_not_space: "\<not> is_space CHR ''/''" "\<not> is_int_space CHR ''/''" "\<not> is_digit CHR ''/''"
  by (simp_all add: is_space_def is_int_space_def is_digit_def)

lemma startswith_slashes: "startswith s ''//'' \<longleftrightarrow> (\<exists>cs. s = CHR ''/'' # CHR ''/'' # cs)"
proof
  assume "startswith s ''//''"
  then have t: "take 2 s = ''//''" by (simp add: startswith_def numeral_2_eq_2)
  then obtain a b cs where "s = a # b # cs"
    by (cases s; cases "tl s") auto
  with t show "\<exists>cs. s = CHR ''/'' # CHR ''/'' # cs" by simp
next
  assume "\<exists>cs. s = CHR ''/'' # CHR ''/'' # cs"
  then show "startswith s ''//''" by (auto simp: startswith_def)
qed

lemma strip_keeps_comment:
  assumes "startswith s ''//''"
  shows "startswith (strip s) ''//''"
proof -
  from assms obtain cs where s: "s = CHR ''/'' # CHR ''/'' # cs"
    by (auto simp: startswith_slashes)
  have "dropWhile is_space (rev s) = dropWhile is_space (rev cs) @ ''//''
      \<or> dropWhile is_space (rev s) = ''//''"
    by (simp add: s dropWhile_append slash_not_space)
  then have "\<exists>ys. dropWhile is_space (rev s) = ys @ ''//''" by auto
  then obtain ys where "dropWhile is_space (rev s) = ys @ ''//''" ..
  moreover have "dropWhile is_space s = s" by (simp add: s slash_not_space)
  ultimately have "strip s = CHR ''/'' # CHR ''/'' # rev ys"
    by (simp add: strip_def)
  then show ?thesis by (simp add: startswith_slashes)
qed

lemma comment_not_int:
  assumes "startswith s ''//''"
  shows "py_int lim s = None"
proof -
  from assms obtain cs where s: "s = CHR ''/'' # CHR ''/'' # cs"
    by (auto simp: startswith_slashes)
  from strip_ends_keep_head [of is_int_space "CHR ''/''" "CHR ''/'' # cs"]
  obtain zs where t: "rev (dropWhile is_int_space (rev (dropWhile is_int_space s))) = CHR ''/'' # zs"
    by (auto simp: s slash_not_space)
  have "body_digits (CHR ''/'' # zs) = None"
    by (cases zs) (simp_all add: slash_not_space)
  with t show ?thesis by (simp add: py_int_def)
qed

lemma setdefault_append_lookup:
  "map_of (setdefault_append d k v) k = Some (dict_get d k [] @ [v])"
  by (cases "map_of d k")
    (simp_all add: setdefault_append_def dict_get_def update_conv' map_add_def)

lemma setdefault_append_other:
  "k' \<noteq> k \<Longrightarrow> map_of (setdefault_append d k v) k' = map_of d k'"
  by (cases "map_of d k")
    (auto simp: setdefault_append_def update_conv' map_add_def split: option.splits)

lemma setdefault_append_changes: "setdefault_append d k v \<noteq> d"
proof
  assume "setdefault_append d k v = d"
  then have "map_of (setdefault_append d k v) k = map_of d k" by simp
  then have "map_of d k = Some (dict_get d k [] @ [v])"
    by (simp add: setdefault_append_lookup)
  then show False by (cases "map_of d k") (simp_all add: dict_get_def)
qed

text \<open>The condition under which the loop body of the code reaches a \<open>continue\<close>.\<close>

lemma read_row_skips:
  "skipped_row lim row \<longleftrightarrow>
     row = [] \<or> startswith (strip (row ! 0)) ''//'' \<or> length row \<noteq> 3 \<or>
     py_int lim (strip (row ! 0)) = None \<or> py_int lim (strip (row ! 2)) = None"
  using strip_keeps_comment [of "row ! 0"] comment_not_int [of "strip (row ! 0)" lim]
  by (auto simp: skipped_row_def)

lemma read_row_skipped: "skipped_row lim row \<Longrightarrow> read_row lim table row = table"
  by (auto simp: read_row_skips read_row_def Let_def split: option.splits)

lemma read_row_kept:
  assumes "\<not> skipped_row lim row"
  shows "\<exists>frm to. py_int lim (strip (row ! 0)) = Some frm
     \<and> py_int lim (strip (row ! 2)) = Some to
     \<and> read_row lim table row = setdefault_append table (frm, input_symbol (row ! 1)) to"
proof -
  from assms have a: "row \<noteq> []" "\<not> startswith (strip (row ! 0)) ''//''" "length row = 3"
    and "py_int lim (strip (row ! 0)) \<noteq> None" "py_int lim (strip (row ! 2)) \<noteq> None"
    by (simp_all add: read_row_skips)
  then obtain frm to where "py_int lim (strip (row ! 0)) = Some frm"
    "py_int lim (strip (row ! 2)) = Some to" by auto
  with a show ?thesis by (simp add: read_row_def)
qed

lemma foldl_skip_filter:
  assumes "\<And>a x. P x \<Longrightarrow> f a x = a"
  shows "foldl f a xs = foldl f a (filter (\<lambda>x. \<not> P x) xs)"
  by (induction xs arbitrary: a) (simp_all add: assms)

section \<open>The claims\<close>

text \<open>
  C5: for every NFA and every set of states \<open>S\<close>, the closure of the closure of
  \<open>S\<close> has the same elements as the closure of \<open>S\<close> (Python's \<open>==\<close> on sets),
  and \<open>S\<close> is a subset of its closure. This holds for every iteration order.
\<close>

theorem epsilon_closure_idempotent:
  "set (epsilon_closure L nfa (epsilon_closure L nfa S)) = set (epsilon_closure L nfa S)
   \<and> set S \<subseteq> set (epsilon_closure L nfa S)"
proof
  have "(eps_rel nfa)\<^sup>* `` ((eps_rel nfa)\<^sup>* `` set S) = (eps_rel nfa)\<^sup>* `` set S"
    by (auto intro: rtrancl_trans)
  then show "set (epsilon_closure L nfa (epsilon_closure L nfa S)) = set (epsilon_closure L nfa S)"
    by (simp add: epsilon_closure_set)
  show "set S \<subseteq> set (epsilon_closure L nfa S)"
    by (auto simp: epsilon_closure_set)
qed

text \<open>
  C7: for every NFA, every set of states \<open>S\<close> and every symbol (a string, hence not
  epsilon), \<open>move_nfa\<close> returns the union over the states \<open>s\<close> of \<open>S\<close> of the
  targets listed for \<open>(s, symbol)\<close>; when no state of \<open>S\<close> has a target on the
  symbol, it returns the empty set.
\<close>

theorem move_nfa_union:
  "set (move_nfa L nfa S symbol)
     = (\<Union>s \<in> set S. set (dict_get (NFA.transitions nfa) (s, Some symbol) []))
   \<and> ((\<forall>s \<in> set S. dict_get (NFA.transitions nfa) (s, Some symbol) [] = [])
        \<longrightarrow> move_nfa L nfa S symbol = [])"
proof (intro conjI impI)
  show u: "set (move_nfa L nfa S symbol)
     = (\<Union>s \<in> set S. set (dict_get (NFA.transitions nfa) (s, Some symbol) []))"
    by (rule move_nfa_set)
  assume "\<forall>s \<in> set S. dict_get (NFA.transitions nfa) (s, Some symbol) [] = []"
  with u have "set (move_nfa L nfa S symbol) = {}" by simp
  then show "move_nfa L nfa S symbol = []" by simp
qed

theorem move_nfa_union_witness:
  "dict_get (NFA.transitions scenario_nfa) (0, Some ''b'') [] = []
   \<and> dict_get (NFA.transitions scenario_nfa) (1, Some ''b'') [] = []
   \<and> move_nfa insertion_order scenario_nfa [0, 1] ''b'' = []
   \<and> set (move_nfa insertion_order scenario_nfa [2, 3] ''b'') = {4}"
proof -
  have a: "dict_get (NFA.transitions scenario_nfa) (0, Some ''b'') [] = []"
    and b: "dict_get (NFA.transitions scenario_nfa) (1, Some ''b'') [] = []"
    and c: "dict_get (NFA.transitions scenario_nfa) (2, Some ''b'') [] = []"
    and d: "dict_get (NFA.transitions scenario_nfa) (3, Some ''b'') [] = [4]"
    by (simp_all add: scenario_nfa_def dict_get_def)
  from a b have "\<forall>s \<in> set [0, 1]. dict_get (NFA.transitions scenario_nfa) (s, Some ''b'') [] = []"
    by simp
  with move_nfa_union [of insertion_order scenario_nfa "[0, 1]" "''b''"]
  have "move_nfa insertion_order scenario_nfa [0, 1] ''b'' = []" by blast
  moreover from move_nfa_union [of insertion_order scenario_nfa "[2, 3]" "''b''"] c d
  have "set (move_nfa insertion_order scenario_nfa [2, 3] ''b'') = {4}" by simp
  ultimately show ?thesis using a b by simp
qed

text \<open>
  C10: the closure of \<open>S\<close> consists exactly of the states that are in \<open>S\<close> or can be
  reached from a state of \<open>S\<close> along epsilon transitions alone, and it is the least
  set that contains \<open>S\<close> and is closed under epsilon transitions.
\<close>

theorem epsilon_closure_least:
  "set (epsilon_closure L nfa S) = (eps_rel nfa)\<^sup>* `` set S
   \<and> eps_rel nfa `` set (epsilon_closure L nfa S) \<subseteq> set (epsilon_closure L nfa S)
   \<and> (\<forall>T. set S \<subseteq> T \<and> eps_rel nfa `` T \<subseteq> T \<longrightarrow> set (epsilon_closure L nfa S) \<subseteq> T)"
proof (intro conjI allI impI)
  show "set (epsilon_closure L nfa S) = (eps_rel nfa)\<^sup>* `` set S"
    by (rule epsilon_closure_set)
  show "eps_rel nfa `` set (epsilon_closure L nfa S) \<subseteq> set (epsilon_closure L nfa S)"
    by (auto simp: epsilon_closure_set intro: rtrancl_into_rtrancl)
next
  fix T
  assume T: "set S \<subseteq> T \<and> eps_rel nfa `` T \<subseteq> T"
  then have "(eps_rel nfa)\<^sup>* `` T = T" by (simp add: Image_closed_trancl)
  moreover from T have "(eps_rel nfa)\<^sup>* `` set S \<subseteq> (eps_rel nfa)\<^sup>* `` T"
    by (simp add: Image_mono)
  ultimately show "set (epsilon_closure L nfa S) \<subseteq> T"
    by (simp add: epsilon_closure_set)
qed

theorem epsilon_closure_least_witness:
  "set [0] \<subseteq> {0, 1 :: int} \<and> eps_rel scenario_nfa `` {0, 1} \<subseteq> {0, 1}
   \<and> set (epsilon_closure insertion_order scenario_nfa [0]) = {0, 1}"
proof -
  have closed: "eps_rel scenario_nfa `` {0, 1} \<subseteq> {0, 1}"
    by (auto simp: eps_rel_def scenario_nfa_def dict_get_def split: if_splits)
  have "(0, 1) \<in> eps_rel scenario_nfa"
    by (simp add: eps_rel_def scenario_nfa_def dict_get_def)
  then have "{0, 1} \<subseteq> (eps_rel scenario_nfa)\<^sup>* `` set [0]" by auto
  moreover have "set [0] \<subseteq> {0, 1 :: int} \<and> eps_rel scenario_nfa `` {0, 1} \<subseteq> {0, 1}"
    using closed by simp
  with epsilon_closure_least [of insertion_order scenario_nfa "[0]"]
  have "set (epsilon_closure insertion_order scenario_nfa [0]) \<subseteq> {0, 1}" by blast
  moreover from epsilon_closure_least [of insertion_order scenario_nfa "[0]"]
  have "set (epsilon_closure insertion_order scenario_nfa [0]) = (eps_rel scenario_nfa)\<^sup>* `` set [0]"
    by blast
  ultimately show ?thesis using closed by auto
qed

text \<open>
  C4: the construction returns, and for every DFA state it has discovered (every
  position \<open>i\<close> of \<open>dfa_states\<close>), \<open>i\<close> is a key of \<open>dfa.accept\<close> if and only if
  the state set at \<open>i\<close> has an element in common with the keys of \<open>nfa.accept\<close>.
  No other key occurs in \<open>dfa.accept\<close>.
\<close>

theorem accept_iff_intersects:
  "\<exists>st. construct L nfa alphabet = Inr st
     \<and> convert_nfa_to_dfa L nfa alphabet
         = Inr \<lparr>DFA.transitions = dfa_transitions st, DFA.start = 0, DFA.accept = dfa_accept st\<rparr>
     \<and> fst ` set (dfa_accept st) \<subseteq> {..<length (dfa_states st)}
     \<and> (\<forall>i < length (dfa_states st).
           i \<in> fst ` set (dfa_accept st)
             \<longleftrightarrow> set (dfa_states st ! i) \<inter> fst ` set (NFA.accept nfa) \<noteq> {})"
proof -
  from construct_total obtain st where st: "construct L nfa alphabet = Inr st"
    and inv: "construction_inv L nfa st" by blast
  from inv have keys: "fst ` set (dfa_accept st) \<subseteq> {..<length (dfa_states st)}"
    and labels: "\<forall>i < length (dfa_states st).
        map_of (dfa_accept st) i
          = (if set (dfa_states st ! i) \<inter> fst ` set (NFA.accept nfa) \<noteq> {}
             then Some (join '', '' (accept_labels L nfa (dfa_states st ! i)))
             else None)"
    by (simp_all add: construction_inv_def)
  have "\<forall>i < length (dfa_states st).
      i \<in> fst ` set (dfa_accept st)
        \<longleftrightarrow> set (dfa_states st ! i) \<inter> fst ` set (NFA.accept nfa) \<noteq> {}"
  proof (intro allI impI)
    fix i assume "i < length (dfa_states st)"
    with labels have "map_of (dfa_accept st) i \<noteq> None
        \<longleftrightarrow> set (dfa_states st ! i) \<inter> fst ` set (NFA.accept nfa) \<noteq> {}"
      by simp
    then show "i \<in> fst ` set (dfa_accept st)
        \<longleftrightarrow> set (dfa_states st ! i) \<inter> fst ` set (NFA.accept nfa) \<noteq> {}"
      by (simp add: map_of_eq_None_iff)
  qed
  with st keys show ?thesis by (simp add: convert_nfa_to_dfa_def)
qed

theorem accept_iff_intersects_witness:
  "construct insertion_order scenario_nfa [''a'', ''b'']
     = Inr \<lparr>dfa_transitions = [((0, ''a''), 1), ((1, ''b''), 2)],
            dfa_accept = [(2, ''accept'')],
            state_mapping = [([0, 1], 0), ([2, 3], 1), ([4], 2)],
            dfa_states = [[0, 1], [2, 3], [4]], queue = []\<rparr>
   \<and> (2 :: nat) < length [[0, 1], [2, 3], [4 :: int]]
   \<and> (2 :: nat) \<in> fst ` set [(2 :: nat, ''accept'')]
   \<and> set ([[0, 1], [2, 3], [4 :: int]] ! 2) \<inter> fst ` set (NFA.accept scenario_nfa) \<noteq> {}"
proof -
  have run: "construct insertion_order scenario_nfa [''a'', ''b'']
     = Inr \<lparr>dfa_transitions = [((0, ''a''), 1), ((1, ''b''), 2)],
            dfa_accept = [(2, ''accept'')],
            state_mapping = [([0, 1], 0), ([2, 3], 1), ([4], 2)],
            dfa_states = [[0, 1], [2, 3], [4]], queue = []\<rparr>"
    by code_simp
  from accept_iff_intersects [of insertion_order scenario_nfa "[''a'', ''b'']"] run
  have "\<forall>i < length [[0, 1], [2, 3], [4 :: int]].
      i \<in> fst ` set [(2 :: nat, ''accept'')]
        \<longleftrightarrow> set ([[0, 1], [2, 3], [4 :: int]] ! i) \<inter> fst ` set (NFA.accept scenario_nfa) \<noteq> {}"
    by simp
  moreover have less: "(2 :: nat) < length [[0, 1], [2, 3], [4 :: int]]" by simp
  ultimately have "(2 :: nat) \<in> fst ` set [(2 :: nat, ''accept'')]
        \<longleftrightarrow> set ([[0, 1], [2, 3], [4 :: int]] ! 2) \<inter> fst ` set (NFA.accept scenario_nfa) \<noteq> {}"
    by blast
  moreover have "(2 :: nat) \<in> fst ` set [(2 :: nat, ''accept'')]" by simp
  ultimately have "set ([[0, 1], [2, 3], [4 :: int]] ! 2) \<inter> fst ` set (NFA.accept scenario_nfa) \<noteq> {}"
    by blast
  with run less show ?thesis by simp
qed

text \<open>
  C6: at every point of a run, two entries of \<open>state_mapping\<close> have the same state
  set if and only if they have the same DFA state id, so no state set has two ids and
  no id has two state sets. When the closure computed for a symbol is already a key,
  with id \<open>j\<close>, the step assigns no id: \<open>state_mapping\<close> and \<open>dfa_states\<close> stay as
  they are and the transition recorded for the symbol goes to \<open>j\<close>.
\<close>

theorem state_mapping_injective:
  "(during L nfa alphabet st \<longrightarrow>
      (\<forall>(k1, i1) \<in> set (state_mapping st). \<forall>(k2, i2) \<in> set (state_mapping st).
         (set k1 = set k2) = (i1 = i2)))
   \<and> (move_nfa L nfa (iter L css) symbol \<noteq> []
        \<and> mapping_get (state_mapping st) (next_closure_of L nfa css symbol) = Some j \<longrightarrow>
      (\<exists>k. (k, j) \<in> set (state_mapping st) \<and> set k = set (next_closure_of L nfa css symbol))
      \<and> state_mapping (symbol_step L nfa acc i css st symbol) = state_mapping st
      \<and> dfa_states (symbol_step L nfa acc i css st symbol) = dfa_states st
      \<and> map_of (dfa_transitions (symbol_step L nfa acc i css st symbol)) (i, symbol) = Some j)"
proof (intro conjI impI)
  assume "during L nfa alphabet st"
  then have "construction_inv L nfa st" by (rule during_inv)
  then show "\<forall>(k1, i1) \<in> set (state_mapping st). \<forall>(k2, i2) \<in> set (state_mapping st).
         (set k1 = set k2) = (i1 = i2)"
    using inv_mapping_injective by blast
next
  assume a: "move_nfa L nfa (iter L css) symbol \<noteq> []
        \<and> mapping_get (state_mapping st) (next_closure_of L nfa css symbol) = Some j"
  then show "\<exists>k. (k, j) \<in> set (state_mapping st) \<and> set k = set (next_closure_of L nfa css symbol)"
    by (simp add: mapping_get_Some)
  from a have step: "symbol_step L nfa acc i css st symbol
      = st\<lparr>dfa_transitions := AList.update (i, symbol) j (dfa_transitions st)\<rparr>"
    by (cases rule: symbol_step_cases [of L nfa css symbol acc i st]) simp_all
  show "state_mapping (symbol_step L nfa acc i css st symbol) = state_mapping st"
    and "dfa_states (symbol_step L nfa acc i css st symbol) = dfa_states st"
    and "map_of (dfa_transitions (symbol_step L nfa acc i css st symbol)) (i, symbol) = Some j"
    by (simp_all add: step update_conv')
qed

theorem state_mapping_injective_witness:
  "during insertion_order loop_nfa [''a'']
     \<lparr>dfa_transitions = [((0, ''a''), 1), ((1, ''a''), 1)], dfa_accept = [],
      state_mapping = [([0], 0), ([1], 1)], dfa_states = [[0], [1]], queue = []\<rparr>
   \<and> (set [0 :: int] = set [1]) = ((0 :: nat) = 1)
   \<and> move_nfa insertion_order loop_nfa (iter insertion_order [1]) ''a'' \<noteq> []
   \<and> mapping_get [([0], 0), ([1], 1)] (next_closure_of insertion_order loop_nfa [1] ''a'') = Some 1
   \<and> map_of (dfa_transitions (symbol_step insertion_order loop_nfa [] 1 [1]
         \<lparr>dfa_transitions = [((0, ''a''), 1)], dfa_accept = [],
          state_mapping = [([0], 0), ([1], 1)], dfa_states = [[0], [1]], queue = []\<rparr> ''a''))
       (1, ''a'') = Some 1"
proof -
  define st1 where "st1 =
     \<lparr>dfa_transitions = [((0, ''a''), 1), ((1, ''a''), 1)], dfa_accept = [],
      state_mapping = [([0], 0), ([1 :: int], 1 :: nat)], dfa_states = [[0], [1]], queue = []\<rparr>"
  define st2 where "st2 =
     \<lparr>dfa_transitions = [((0, ''a''), 1)], dfa_accept = [],
      state_mapping = [([0], 0), ([1 :: int], 1 :: nat)], dfa_states = [[0], [1]], queue = []\<rparr>"
  have "construct insertion_order loop_nfa [''a''] = Inr st1"
    unfolding st1_def by code_simp
  then have d: "during insertion_order loop_nfa [''a''] st1"
    by (intro during.head construct_loop_head)
  have m: "move_nfa insertion_order loop_nfa (iter insertion_order [1]) ''a'' \<noteq> []"
    by code_simp
  have g: "mapping_get (state_mapping st2) (next_closure_of insertion_order loop_nfa [1] ''a'') = Some 1"
    unfolding st2_def by code_simp
  from state_mapping_injective [where L = insertion_order and nfa = loop_nfa
      and alphabet = "[''a'']" and st = st1] d
  have "\<forall>(k1, i1) \<in> set (state_mapping st1). \<forall>(k2, i2) \<in> set (state_mapping st1).
         (set k1 = set k2) = (i1 = i2)"
    by blast
  then have inj: "(set [0 :: int] = set [1]) = ((0 :: nat) = 1)"
    by (simp add: st1_def)
  from state_mapping_injective [where L = insertion_order and nfa = loop_nfa
      and st = st2 and css = "[1]" and symbol = "''a''" and j = 1 and acc = "[]" and i = 1] m g
  have "map_of (dfa_transitions (symbol_step insertion_order loop_nfa [] 1 [1] st2 ''a''))
       (1, ''a'') = Some 1"
    by blast
  with d inj m g show ?thesis
    by (simp add: st1_def st2_def)
qed

text \<open>
  C1, as the code has it: the construction returns, and the label of every DFA accept
  state is the labels of all NFA accept states in its state set (each of them once),
  joined with \<open>", "\<close>, in the order in which the frozen set of that state set is
  iterated. The code never sorts: ascending order of the state ids is what comes out only
  when the set happens to be iterated that way.
\<close>

theorem accept_label_iteration_order:
  "\<exists>st. construct L nfa alphabet = Inr st
     \<and> convert_nfa_to_dfa L nfa alphabet
         = Inr \<lparr>DFA.transitions = dfa_transitions st, DFA.start = 0, DFA.accept = dfa_accept st\<rparr>
     \<and> (\<forall>i label. map_of (dfa_accept st) i = Some label \<longrightarrow>
           i < length (dfa_states st)
           \<and> label = join '', '' (map (\<lambda>s. the (map_of (NFA.accept nfa) s))
                                  (accept_states_in L nfa (dfa_states st ! i)))
           \<and> distinct (accept_states_in L nfa (dfa_states st ! i))
           \<and> set (accept_states_in L nfa (dfa_states st ! i))
               = set (dfa_states st ! i) \<inter> fst ` set (NFA.accept nfa))"
proof -
  from construct_total obtain st where st: "construct L nfa alphabet = Inr st"
    and inv: "construction_inv L nfa st" by blast
  from inv have keys: "fst ` set (dfa_accept st) \<subseteq> {..<length (dfa_states st)}"
    and labels: "\<forall>i < length (dfa_states st).
        map_of (dfa_accept st) i
          = (if set (dfa_states st ! i) \<inter> fst ` set (NFA.accept nfa) \<noteq> {}
             then Some (join '', '' (accept_labels L nfa (dfa_states st ! i)))
             else None)"
    by (simp_all add: construction_inv_def)
  have "\<forall>i label. map_of (dfa_accept st) i = Some label \<longrightarrow>
           i < length (dfa_states st)
           \<and> label = join '', '' (map (\<lambda>s. the (map_of (NFA.accept nfa) s))
                                  (accept_states_in L nfa (dfa_states st ! i)))
           \<and> distinct (accept_states_in L nfa (dfa_states st ! i))
           \<and> set (accept_states_in L nfa (dfa_states st ! i))
               = set (dfa_states st ! i) \<inter> fst ` set (NFA.accept nfa)"
  proof (intro allI impI)
    fix i label assume some: "map_of (dfa_accept st) i = Some label"
    then have "i \<in> fst ` set (dfa_accept st)"
      by (metis map_of_eq_None_iff option.distinct(1))
    with keys have i: "i < length (dfa_states st)" by auto
    with labels some
    have "label = join '', '' (accept_labels L nfa (dfa_states st ! i))"
      by (auto split: if_splits)
    then have "label = join '', '' (map (\<lambda>s. the (map_of (NFA.accept nfa) s))
                                  (accept_states_in L nfa (dfa_states st ! i)))"
      by (simp add: accept_labels_states)
    moreover have "distinct (accept_states_in L nfa (dfa_states st ! i))"
      by (simp add: accept_states_in_def)
    moreover have "set (accept_states_in L nfa (dfa_states st ! i))
               = set (dfa_states st ! i) \<inter> fst ` set (NFA.accept nfa)"
      by (auto simp: accept_states_in_def)
    ultimately show "i < length (dfa_states st)
           \<and> label = join '', '' (map (\<lambda>s. the (map_of (NFA.accept nfa) s))
                                  (accept_states_in L nfa (dfa_states st ! i)))
           \<and> distinct (accept_states_in L nfa (dfa_states st ! i))
           \<and> set (accept_states_in L nfa (dfa_states st ! i))
               = set (dfa_states st ! i) \<inter> fst ` set (NFA.accept nfa)"
      using i by simp
  qed
  with st show ?thesis by (simp add: convert_nfa_to_dfa_def)
qed

theorem accept_label_iteration_order_witness:
  "construct insertion_order unordered_nfa []
     = Inr \<lparr>dfa_transitions = [], dfa_accept = [(0, ''eight, one'')],
            state_mapping = [([8, 1], 0)], dfa_states = [[8, 1]], queue = []\<rparr>
   \<and> map_of [(0 :: nat, ''eight, one'')] 0 = Some ''eight, one''
   \<and> accept_states_in insertion_order unordered_nfa [8, 1] = [8, 1]
   \<and> ''eight, one'' = join '', '' (map (\<lambda>s. the (map_of (NFA.accept unordered_nfa) s)) [8, 1])"
proof -
  have run: "construct insertion_order unordered_nfa []
     = Inr \<lparr>dfa_transitions = [], dfa_accept = [(0, ''eight, one'')],
            state_mapping = [([8, 1], 0)], dfa_states = [[8, 1]], queue = []\<rparr>"
    by code_simp
  have order: "accept_states_in insertion_order unordered_nfa [8, 1] = [8, 1]"
    by code_simp
  have look: "map_of [(0 :: nat, ''eight, one'')] 0 = Some ''eight, one''" by simp
  from accept_label_iteration_order [of insertion_order unordered_nfa "[]"]
  obtain st where st: "construct insertion_order unordered_nfa [] = Inr st"
    and lab: "\<forall>i label. map_of (dfa_accept st) i = Some label \<longrightarrow>
      label = join '', '' (map (\<lambda>s. the (map_of (NFA.accept unordered_nfa) s))
                (accept_states_in insertion_order unordered_nfa (dfa_states st ! i)))"
    by blast
  from st run have "st = \<lparr>dfa_transitions = [], dfa_accept = [(0, ''eight, one'')],
            state_mapping = [([8, 1], 0)], dfa_states = [[8, 1]], queue = []\<rparr>"
    by simp
  then have acc: "dfa_accept st = [(0, ''eight, one'')]"
    and sts: "dfa_states st = [[8, 1]]"
    by simp_all
  from look have "map_of (dfa_accept st) 0 = Some ''eight, one''"
    by (simp only: acc)
  with lab have "''eight, one''
      = join '', '' (map (\<lambda>s. the (map_of (NFA.accept unordered_nfa) s))
          (accept_states_in insertion_order unordered_nfa (dfa_states st ! 0)))"
    by blast
  then have "''eight, one''
      = join '', '' (map (\<lambda>s. the (map_of (NFA.accept unordered_nfa) s)) [8, 1])"
    by (simp only: sts nth_Cons_0 order)
  with run order look show ?thesis by (intro conjI)
qed

text \<open>
  C1 as stated fails on \<open>unordered_nfa\<close>. Its only DFA state has the state set
  \<open>{8, 1}\<close>, built by inserting 8 and then 1, and a set built so is iterated as 8, 1
  (CPython keeps 8 in slot 0 and 1 in slot 1 of the hash table). The recorded label
  is \<open>"eight, one"\<close>; ascending state ids would give \<open>"one, eight"\<close>.
\<close>

theorem accept_label_ascending_counterexample:
  "convert_nfa_to_dfa insertion_order unordered_nfa []
     = Inr \<lparr>DFA.transitions = [], DFA.start = 0, DFA.accept = [(0, ''eight, one'')]\<rparr>
   \<and> join '', '' (map (\<lambda>s. the (map_of (NFA.accept unordered_nfa) s)) (sort [8, 1]))
       = ''one, eight''
   \<and> ''eight, one'' \<noteq> ''one, eight''"
proof (intro conjI)
  show "convert_nfa_to_dfa insertion_order unordered_nfa []
     = Inr \<lparr>DFA.transitions = [], DFA.start = 0, DFA.accept = [(0, ''eight, one'')]\<rparr>"
    by code_simp
  show "join '', '' (map (\<lambda>s. the (map_of (NFA.accept unordered_nfa) s)) (sort [8, 1]))
       = ''one, eight''"
    by code_simp
  show "''eight, one'' \<noteq> ''one, eight''" by simp
qed

text \<open>
  C2, as the code has it: take two runs on the same NFA and the same alphabet list, each
  under a set iteration order of its own. Both return. They record the same transitions
  in the same order, give every state set the same DFA state id, and list the same accept
  ids in the same order: the iteration order of sets has no part in them. The label of
  an accept state is, in either run, the join of the labels of the same NFA accept states,
  each once, in the order in which that run iterates the state set; so the two label
  texts can differ in the order of their parts and in nothing else.
\<close>

theorem numbering_independent_of_iteration:
  "\<exists>st st'. construct L nfa alphabet = Inr st \<and> construct L' nfa alphabet = Inr st'
     \<and> convert_nfa_to_dfa L nfa alphabet
         = Inr \<lparr>DFA.transitions = dfa_transitions st, DFA.start = 0, DFA.accept = dfa_accept st\<rparr>
     \<and> convert_nfa_to_dfa L' nfa alphabet
         = Inr \<lparr>DFA.transitions = dfa_transitions st', DFA.start = 0, DFA.accept = dfa_accept st'\<rparr>
     \<and> dfa_transitions st = dfa_transitions st'
     \<and> map fst (dfa_accept st) = map fst (dfa_accept st')
     \<and> map set (dfa_states st) = map set (dfa_states st')
     \<and> (\<forall>i label. map_of (dfa_accept st) i = Some label \<longrightarrow>
           i < length (dfa_states st)
           \<and> label = join '', '' (map (\<lambda>s. the (map_of (NFA.accept nfa) s))
                                  (accept_states_in L nfa (dfa_states st ! i)))
           \<and> map_of (dfa_accept st') i
               = Some (join '', '' (map (\<lambda>s. the (map_of (NFA.accept nfa) s))
                                     (accept_states_in L' nfa (dfa_states st' ! i))))
           \<and> set (accept_states_in L nfa (dfa_states st ! i))
               = set (accept_states_in L' nfa (dfa_states st' ! i))
           \<and> distinct (accept_states_in L nfa (dfa_states st ! i))
           \<and> distinct (accept_states_in L' nfa (dfa_states st' ! i)))"
proof -
  from construct_total obtain st where st: "construct L nfa alphabet = Inr st"
    and inv: "construction_inv L nfa st" by blast
  from construct_total obtain st' where st': "construct L' nfa alphabet = Inr st'"
    and inv': "construction_inv L' nfa st'" by blast
  from same_run_construct [OF st st']
  have tr: "dfa_transitions st = dfa_transitions st'"
    and ak: "map fst (dfa_accept st) = map fst (dfa_accept st')"
    and ds: "map set (dfa_states st) = map set (dfa_states st')"
    by (simp_all add: same_run_def)
  from ds have len: "length (dfa_states st) = length (dfa_states st')"
    by (metis length_map)
  have dfa: "convert_nfa_to_dfa L nfa alphabet
         = Inr \<lparr>DFA.transitions = dfa_transitions st, DFA.start = 0, DFA.accept = dfa_accept st\<rparr>"
    and dfa': "convert_nfa_to_dfa L' nfa alphabet
         = Inr \<lparr>DFA.transitions = dfa_transitions st', DFA.start = 0, DFA.accept = dfa_accept st'\<rparr>"
    by (simp_all add: convert_nfa_to_dfa_def st st')
  from inv have keys: "fst ` set (dfa_accept st) \<subseteq> {..<length (dfa_states st)}"
    and lab: "\<forall>i < length (dfa_states st).
        map_of (dfa_accept st) i
          = (if set (dfa_states st ! i) \<inter> fst ` set (NFA.accept nfa) \<noteq> {}
             then Some (join '', '' (accept_labels L nfa (dfa_states st ! i)))
             else None)"
    by (simp_all add: construction_inv_def)
  from inv' have lab': "\<forall>i < length (dfa_states st').
        map_of (dfa_accept st') i
          = (if set (dfa_states st' ! i) \<inter> fst ` set (NFA.accept nfa) \<noteq> {}
             then Some (join '', '' (accept_labels L' nfa (dfa_states st' ! i)))
             else None)"
    by (simp add: construction_inv_def)
  have entries: "\<forall>i label. map_of (dfa_accept st) i = Some label \<longrightarrow>
           i < length (dfa_states st)
           \<and> label = join '', '' (map (\<lambda>s. the (map_of (NFA.accept nfa) s))
                                  (accept_states_in L nfa (dfa_states st ! i)))
           \<and> map_of (dfa_accept st') i
               = Some (join '', '' (map (\<lambda>s. the (map_of (NFA.accept nfa) s))
                                     (accept_states_in L' nfa (dfa_states st' ! i))))
           \<and> set (accept_states_in L nfa (dfa_states st ! i))
               = set (accept_states_in L' nfa (dfa_states st' ! i))
           \<and> distinct (accept_states_in L nfa (dfa_states st ! i))
           \<and> distinct (accept_states_in L' nfa (dfa_states st' ! i))"
  proof (intro allI impI)
    fix i label assume some: "map_of (dfa_accept st) i = Some label"
    then have "i \<in> fst ` set (dfa_accept st)"
      by (metis map_of_eq_None_iff option.distinct(1))
    with keys have i: "i < length (dfa_states st)" by auto
    with ds len have sets: "set (dfa_states st ! i) = set (dfa_states st' ! i)"
      by (metis nth_map)
    from lab i some
    have meets: "set (dfa_states st ! i) \<inter> fst ` set (NFA.accept nfa) \<noteq> {}"
      and l: "label = join '', '' (accept_labels L nfa (dfa_states st ! i))"
      by (auto split: if_splits)
    from lab' i len meets sets
    have l': "map_of (dfa_accept st') i
        = Some (join '', '' (accept_labels L' nfa (dfa_states st' ! i)))"
      by simp
    have same: "set (accept_states_in L nfa (dfa_states st ! i))
        = set (accept_states_in L' nfa (dfa_states st' ! i))"
      using sets by (auto simp: accept_states_in_def)
    have d: "distinct (accept_states_in L nfa (dfa_states st ! i))"
      and d': "distinct (accept_states_in L' nfa (dfa_states st' ! i))"
      by (simp_all add: accept_states_in_def)
    from i l l' same d d' show "i < length (dfa_states st)
           \<and> label = join '', '' (map (\<lambda>s. the (map_of (NFA.accept nfa) s))
                                  (accept_states_in L nfa (dfa_states st ! i)))
           \<and> map_of (dfa_accept st') i
               = Some (join '', '' (map (\<lambda>s. the (map_of (NFA.accept nfa) s))
                                     (accept_states_in L' nfa (dfa_states st' ! i))))
           \<and> set (accept_states_in L nfa (dfa_states st ! i))
               = set (accept_states_in L' nfa (dfa_states st' ! i))
           \<and> distinct (accept_states_in L nfa (dfa_states st ! i))
           \<and> distinct (accept_states_in L' nfa (dfa_states st' ! i))"
      by (simp add: accept_labels_states)
  qed
  from st st' dfa dfa' tr ak ds entries show ?thesis
    by (intro exI [of _ st] exI [of _ st'] conjI)
qed

theorem numbering_independent_of_iteration_witness:
  "construct insertion_order backward_nfa []
     = Inr \<lparr>dfa_transitions = [], dfa_accept = [(0, ''one, zero'')],
            state_mapping = [([1, 0], 0)], dfa_states = [[1, 0]], queue = []\<rparr>
   \<and> construct ascending_order backward_nfa []
     = Inr \<lparr>dfa_transitions = [], dfa_accept = [(0, ''zero, one'')],
            state_mapping = [([0, 1], 0)], dfa_states = [[0, 1]], queue = []\<rparr>
   \<and> map_of [(0 :: nat, ''one, zero'')] 0 = Some ''one, zero''
   \<and> map_of [(0 :: nat, ''zero, one'')] 0
       = Some (join '', '' (map (\<lambda>s. the (map_of (NFA.accept backward_nfa) s))
                             (accept_states_in ascending_order backward_nfa [0, 1])))
   \<and> set (accept_states_in insertion_order backward_nfa [1, 0])
       = set (accept_states_in ascending_order backward_nfa [0, 1])"
proof -
  define s where "s = \<lparr>dfa_transitions = [], dfa_accept = [(0, ''one, zero'')],
            state_mapping = [([1, 0], 0)], dfa_states = [[1, 0 :: int]], queue = []\<rparr>"
  define s' where "s' = \<lparr>dfa_transitions = [], dfa_accept = [(0, ''zero, one'')],
            state_mapping = [([0, 1], 0)], dfa_states = [[0, 1 :: int]], queue = []\<rparr>"
  have run: "construct insertion_order backward_nfa [] = Inr s"
    unfolding s_def by code_simp
  have run': "construct ascending_order backward_nfa [] = Inr s'"
    unfolding s'_def by code_simp
  have look: "map_of [(0 :: nat, ''one, zero'')] 0 = Some ''one, zero''" by simp
  from numbering_independent_of_iteration [of insertion_order backward_nfa "[]" ascending_order]
  obtain st st' where st: "construct insertion_order backward_nfa [] = Inr st"
    and st': "construct ascending_order backward_nfa [] = Inr st'"
    and entries: "\<forall>i label. map_of (dfa_accept st) i = Some label \<longrightarrow>
           map_of (dfa_accept st') i
               = Some (join '', '' (map (\<lambda>s. the (map_of (NFA.accept backward_nfa) s))
                   (accept_states_in ascending_order backward_nfa (dfa_states st' ! i))))
           \<and> set (accept_states_in insertion_order backward_nfa (dfa_states st ! i))
               = set (accept_states_in ascending_order backward_nfa (dfa_states st' ! i))"
    by blast
  from st run have eq: "st = s" by simp
  from st' run' have eq': "st' = s'" by simp
  from look have "map_of (dfa_accept st) 0 = Some ''one, zero''"
    by (simp add: eq s_def)
  with entries have "map_of (dfa_accept st') 0
               = Some (join '', '' (map (\<lambda>s. the (map_of (NFA.accept backward_nfa) s))
                   (accept_states_in ascending_order backward_nfa (dfa_states st' ! 0))))
           \<and> set (accept_states_in insertion_order backward_nfa (dfa_states st ! 0))
               = set (accept_states_in ascending_order backward_nfa (dfa_states st' ! 0))"
    by blast
  then have "map_of [(0 :: nat, ''zero, one'')] 0
       = Some (join '', '' (map (\<lambda>s. the (map_of (NFA.accept backward_nfa) s))
                             (accept_states_in ascending_order backward_nfa [0, 1])))
   \<and> set (accept_states_in insertion_order backward_nfa [1, 0])
       = set (accept_states_in ascending_order backward_nfa [0, 1])"
    by (simp only: eq eq' s_def s'_def construction.simps nth_Cons_0)
  with run run' look show ?thesis
    unfolding s_def s'_def by (intro conjI) simp_all
qed

text \<open>
  C2 as stated fails on \<open>backward_nfa\<close>, with the same NFA and the same (empty)
  alphabet in both runs. Its only DFA state has the state set \<open>{1, 0}\<close>, built by
  inserting 1 and then 0. A run whose sets are iterated in insertion order (as on PyPy)
  records the label \<open>"one, zero"\<close>; a run that iterates this set as 0, 1 (as CPython
  does, which keeps 0 in slot 0 and 1 in slot 1 of the hash table) records
  \<open>"zero, one"\<close>. The two accept lists are not identical.
\<close>

theorem accept_lists_differ_counterexample:
  "convert_nfa_to_dfa insertion_order backward_nfa []
     = Inr \<lparr>DFA.transitions = [], DFA.start = 0, DFA.accept = [(0, ''one, zero'')]\<rparr>
   \<and> convert_nfa_to_dfa ascending_order backward_nfa []
     = Inr \<lparr>DFA.transitions = [], DFA.start = 0, DFA.accept = [(0, ''zero, one'')]\<rparr>
   \<and> convert_nfa_to_dfa insertion_order backward_nfa []
     \<noteq> convert_nfa_to_dfa ascending_order backward_nfa []"
proof -
  have a: "convert_nfa_to_dfa insertion_order backward_nfa []
     = Inr \<lparr>DFA.transitions = [], DFA.start = 0, DFA.accept = [(0, ''one, zero'')]\<rparr>"
    by code_simp
  have b: "convert_nfa_to_dfa ascending_order backward_nfa []
     = Inr \<lparr>DFA.transitions = [], DFA.start = 0, DFA.accept = [(0, ''zero, one'')]\<rparr>"
    by code_simp
  from a b show ?thesis by simp
qed

text \<open>
  C3: on the NFA of the scenario, whichever way sets are iterated and in whichever
  order the alphabet \<open>{a, b}\<close> is listed, the construction discovers exactly the three
  state sets \<open>{0, 1}\<close>, \<open>{2, 3}\<close> and \<open>{4}\<close> (DFA states 0, 1 and 2), records the
  transitions \<open>(0, 'a') -> 1\<close> and \<open>(1, 'b') -> 2\<close> and no other, and returns the
  accept mapping \<open>{2: "accept"}\<close>.
\<close>

theorem scenario_construction:
  "(\<exists>st. construct L scenario_nfa [''a'', ''b''] = Inr st
       \<and> map set (dfa_states st) = [{0, 1}, {2, 3}, {4}])
   \<and> convert_nfa_to_dfa L scenario_nfa [''a'', ''b'']
       = Inr \<lparr>DFA.transitions = [((0, ''a''), 1), ((1, ''b''), 2)], DFA.start = 0,
              DFA.accept = [(2, ''accept'')]\<rparr>
   \<and> (\<exists>st. construct L scenario_nfa [''b'', ''a''] = Inr st
       \<and> map set (dfa_states st) = [{0, 1}, {2, 3}, {4}])
   \<and> convert_nfa_to_dfa L scenario_nfa [''b'', ''a'']
       = Inr \<lparr>DFA.transitions = [((0, ''a''), 1), ((1, ''b''), 2)], DFA.start = 0,
              DFA.accept = [(2, ''accept'')]\<rparr>"
proof -
  have "construct insertion_order scenario_nfa [''a'', ''b'']
      = Inr \<lparr>dfa_transitions = [((0, ''a''), 1), ((1, ''b''), 2)],
             dfa_accept = [(2, ''accept'')],
             state_mapping = [([0, 1], 0), ([2, 3], 1), ([4], 2)],
             dfa_states = [[0, 1], [2, 3], [4]], queue = []\<rparr>"
    by code_simp
  from scenario_any_layout [OF this, of L]
  obtain st where ab: "construct L scenario_nfa [''a'', ''b''] = Inr st"
    "map set (dfa_states st) = [{0, 1}, {2, 3}, {4}]"
    "dfa_transitions st = [((0, ''a''), 1), ((1, ''b''), 2)]"
    "dfa_accept st = [(2, ''accept'')]"
    by (elim exE conjE)
  have "construct insertion_order scenario_nfa [''b'', ''a'']
      = Inr \<lparr>dfa_transitions = [((0, ''a''), 1), ((1, ''b''), 2)],
             dfa_accept = [(2, ''accept'')],
             state_mapping = [([0, 1], 0), ([2, 3], 1), ([4], 2)],
             dfa_states = [[0, 1], [2, 3], [4]], queue = []\<rparr>"
    by code_simp
  from scenario_any_layout [OF this, of L]
  obtain st' where ba: "construct L scenario_nfa [''b'', ''a''] = Inr st'"
    "map set (dfa_states st') = [{0, 1}, {2, 3}, {4}]"
    "dfa_transitions st' = [((0, ''a''), 1), ((1, ''b''), 2)]"
    "dfa_accept st' = [(2, ''accept'')]"
    by (elim exE conjE)
  have "convert_nfa_to_dfa L scenario_nfa [''a'', ''b'']
       = Inr \<lparr>DFA.transitions = [((0, ''a''), 1), ((1, ''b''), 2)], DFA.start = 0,
              DFA.accept = [(2, ''accept'')]\<rparr>"
    by (simp add: convert_nfa_to_dfa_def ab)
  moreover have "convert_nfa_to_dfa L scenario_nfa [''b'', ''a'']
       = Inr \<lparr>DFA.transitions = [((0, ''a''), 1), ((1, ''b''), 2)], DFA.start = 0,
              DFA.accept = [(2, ''accept'')]\<rparr>"
    by (simp add: convert_nfa_to_dfa_def ba)
  ultimately show ?thesis using ab(1,2) ba(1,2) by (intro conjI exI [of _ st] exI [of _ st'])
qed

text \<open>
  C8: a row that is a comment (its first field starts with \<open>//\<close>), that does not
  have three fields, or whose From or To field is not an integer, leaves the dictionary
  as it was. Every other row is parsed: its To state is appended to the list stored for
  the key (From, symbol). So the table that is read is the one that the rows which are
  not skipped give on their own.
\<close>

theorem malformed_rows_skipped:
  "(skipped_row lim row \<longrightarrow> read_row lim table row = table)
   \<and> (\<not> skipped_row lim row \<longrightarrow>
        (\<exists>frm to. py_int lim (strip (row ! 0)) = Some frm
           \<and> py_int lim (strip (row ! 2)) = Some to
           \<and> read_row lim table row = setdefault_append table (frm, input_symbol (row ! 1)) to
           \<and> map_of (read_row lim table row) (frm, input_symbol (row ! 1))
               = Some (dict_get table (frm, input_symbol (row ! 1)) [] @ [to])))
   \<and> read_nfa_transitions_csv lim rows
       = read_nfa_transitions_csv lim (filter (\<lambda>row. \<not> skipped_row lim row) rows)"
proof (intro conjI impI)
  assume "skipped_row lim row"
  then show "read_row lim table row = table" by (rule read_row_skipped)
next
  assume "\<not> skipped_row lim row"
  from read_row_kept [OF this, of table] obtain frm to
    where "py_int lim (strip (row ! 0)) = Some frm"
      and "py_int lim (strip (row ! 2)) = Some to"
      and "read_row lim table row = setdefault_append table (frm, input_symbol (row ! 1)) to"
    by (elim exE conjE)
  then show "\<exists>frm to. py_int lim (strip (row ! 0)) = Some frm
           \<and> py_int lim (strip (row ! 2)) = Some to
           \<and> read_row lim table row = setdefault_append table (frm, input_symbol (row ! 1)) to
           \<and> map_of (read_row lim table row) (frm, input_symbol (row ! 1))
               = Some (dict_get table (frm, input_symbol (row ! 1)) [] @ [to])"
    by (simp add: setdefault_append_lookup)
next
  show "read_nfa_transitions_csv lim rows
       = read_nfa_transitions_csv lim (filter (\<lambda>row. \<not> skipped_row lim row) rows)"
    unfolding read_nfa_transitions_csv_def
    by (rule foldl_skip_filter) (rule read_row_skipped)
qed

theorem malformed_rows_skipped_witness:
  "skipped_row 4300 [''x'', ''a'', ''1'']
   \<and> read_row 4300 [((0, Some ''a''), [1])] [''x'', ''a'', ''1''] = [((0, Some ''a''), [1])]
   \<and> \<not> skipped_row 4300 ['' 0'', ''a '', ''2 '']
   \<and> map_of (read_row 4300 [((0, Some ''a''), [1])] ['' 0'', ''a '', ''2 '']) (0, Some ''a'')
       = Some [1, 2]
   \<and> filter (\<lambda>row. \<not> skipped_row 4300 row) sample_rows
       = [[''0'', ''a'', ''1''], ['' 0'', ''a '', ''2 ''], [''1'', '''', ''+3'']]
   \<and> read_nfa_transitions_csv 4300 sample_rows = [((0, Some ''a''), [1, 2]), ((1, None), [3])]"
proof -
  have s: "skipped_row 4300 [''x'', ''a'', ''1'']" by code_simp
  have k: "\<not> skipped_row 4300 ['' 0'', ''a '', ''2 '']" by code_simp
  have f: "filter (\<lambda>row. \<not> skipped_row 4300 row) sample_rows
       = [[''0'', ''a'', ''1''], ['' 0'', ''a '', ''2 ''], [''1'', '''', ''+3'']]"
    by code_simp
  have r: "read_nfa_transitions_csv 4300
        [[''0'', ''a'', ''1''], ['' 0'', ''a '', ''2 ''], [''1'', '''', ''+3'']]
      = [((0, Some ''a''), [1, 2]), ((1, None), [3])]"
    by code_simp
  have p: "py_int 4300 (strip (['' 0'', ''a '', ''2 ''] ! 0)) = Some 0"
    "py_int 4300 (strip (['' 0'', ''a '', ''2 ''] ! 2)) = Some 2"
    "input_symbol (['' 0'', ''a '', ''2 ''] ! 1) = Some ''a''"
    by code_simp+
  note inst = malformed_rows_skipped [of 4300 _ "[((0, Some ''a''), [1])]" sample_rows]
  from s inst [of "[''x'', ''a'', ''1'']"]
  have 1: "read_row 4300 [((0, Some ''a''), [1])] [''x'', ''a'', ''1''] = [((0, Some ''a''), [1])]"
    by blast
  from k inst [of "['' 0'', ''a '', ''2 '']"]
  obtain frm to where "py_int 4300 (strip (['' 0'', ''a '', ''2 ''] ! 0)) = Some frm"
    "py_int 4300 (strip (['' 0'', ''a '', ''2 ''] ! 2)) = Some to"
    "map_of (read_row 4300 [((0, Some ''a''), [1])] ['' 0'', ''a '', ''2 ''])
        (frm, input_symbol (['' 0'', ''a '', ''2 ''] ! 1))
      = Some (dict_get [((0, Some ''a''), [1])]
          (frm, input_symbol (['' 0'', ''a '', ''2 ''] ! 1)) [] @ [to])"
    by blast
  with p have 2: "map_of (read_row 4300 [((0, Some ''a''), [1])] ['' 0'', ''a '', ''2 ''])
      (0, Some ''a'') = Some [1, 2]"
    by (simp add: dict_get_def)
  from inst [of "[]"] have "read_nfa_transitions_csv 4300 sample_rows
       = read_nfa_transitions_csv 4300 (filter (\<lambda>row. \<not> skipped_row 4300 row) sample_rows)"
    by blast
  with f r have 3: "read_nfa_transitions_csv 4300 sample_rows
      = [((0, Some ''a''), [1, 2]), ((1, None), [3])]"
    by simp
  from s 1 k 2 f 3 show ?thesis by (intro conjI)
qed

text \<open>
  C9, as the code has it: the Input field is stripped of surrounding white space first.
  A row with three fields that is not a comment and has integer endpoints, and whose
  stripped Input field has more than one character, is kept, and its symbol is the first
  character of the stripped field.
\<close>

theorem long_input_truncated:
  "length row = 3 \<and> \<not> startswith (strip (row ! 0)) ''//''
     \<and> py_int lim (strip (row ! 0)) = Some frm \<and> py_int lim (strip (row ! 2)) = Some to
     \<and> 1 < length (strip (row ! 1))
   \<longrightarrow> read_row lim table row = setdefault_append table (frm, Some [hd (strip (row ! 1))]) to
       \<and> read_row lim table row \<noteq> table
       \<and> map_of (read_row lim table row) (frm, Some [hd (strip (row ! 1))])
           = Some (dict_get table (frm, Some [hd (strip (row ! 1))]) [] @ [to])"
proof
  assume a: "length row = 3 \<and> \<not> startswith (strip (row ! 0)) ''//''
     \<and> py_int lim (strip (row ! 0)) = Some frm \<and> py_int lim (strip (row ! 2)) = Some to
     \<and> 1 < length (strip (row ! 1))"
  then have "strip (row ! 1) \<noteq> []" by auto
  then have "input_symbol (row ! 1) = Some [hd (strip (row ! 1))]"
    by (simp add: input_symbol_def)
  moreover from a have "row \<noteq> []" by auto
  ultimately have "read_row lim table row
      = setdefault_append table (frm, Some [hd (strip (row ! 1))]) to"
    using a by (simp add: read_row_def)
  then show "read_row lim table row = setdefault_append table (frm, Some [hd (strip (row ! 1))]) to
       \<and> read_row lim table row \<noteq> table
       \<and> map_of (read_row lim table row) (frm, Some [hd (strip (row ! 1))])
           = Some (dict_get table (frm, Some [hd (strip (row ! 1))]) [] @ [to])"
    by (simp add: setdefault_append_changes setdefault_append_lookup)
qed

theorem long_input_truncated_witness:
  "length [''1'', '' ab'', ''2''] = 3 \<and> \<not> startswith (strip ([''1'', '' ab'', ''2''] ! 0)) ''//''
   \<and> py_int 4300 (strip ([''1'', '' ab'', ''2''] ! 0)) = Some 1
   \<and> py_int 4300 (strip ([''1'', '' ab'', ''2''] ! 2)) = Some 2
   \<and> 1 < length (strip ([''1'', '' ab'', ''2''] ! 1))
   \<and> [hd (strip ([''1'', '' ab'', ''2''] ! 1))] = ''a''
   \<and> read_row 4300 [] [''1'', '' ab'', ''2''] = setdefault_append [] (1, Some ''a'') 2"
proof -
  have h: "length [''1'', '' ab'', ''2''] = 3"
    "\<not> startswith (strip ([''1'', '' ab'', ''2''] ! 0)) ''//''"
    "py_int 4300 (strip ([''1'', '' ab'', ''2''] ! 0)) = Some 1"
    "py_int 4300 (strip ([''1'', '' ab'', ''2''] ! 2)) = Some 2"
    "1 < length (strip ([''1'', '' ab'', ''2''] ! 1))"
    by code_simp+
  have c: "[hd (strip ([''1'', '' ab'', ''2''] ! 1))] = ''a''" by code_simp
  from h long_input_truncated [of "[''1'', '' ab'', ''2'']" 4300 1 2 "[]"]
  have "read_row 4300 [] [''1'', '' ab'', ''2'']
      = setdefault_append [] (1, Some [hd (strip ([''1'', '' ab'', ''2''] ! 1))]) 2"
    by blast
  then have "read_row 4300 [] [''1'', '' ab'', ''2''] = setdefault_append [] (1, Some ''a'') 2"
    by (simp only: c)
  with h c show ?thesis by (intro conjI)
qed

text \<open>
  C9 as stated fails on the row \<open>1, ab,2\<close>, whose Input field \<open>" ab"\<close> has three
  characters and starts with a blank: the symbol recorded is \<open>a\<close>, not the first
  character of the field. And the Input field of two blanks, which has more than one
  character, gives an epsilon transition and no symbol at all.
\<close>

theorem long_input_first_character_counterexample:
  "1 < length '' ab''
   \<and> read_nfa_transitions_csv 4300 [[''1'', '' ab'', ''2'']] = [((1, Some ''a''), [2])]
   \<and> [hd '' ab''] = '' ''
   \<and> 1 < length ''  ''
   \<and> read_nfa_transitions_csv 4300 [[''1'', ''  '', ''2'']] = [((1, None), [2])]"
  by (intro conjI; code_simp)

end
